theory Spec2Isabelle
  imports Main "HOL-Library.Word"
begin

section \<open>Machine integers and errors\<close>

text \<open>
  Go's \<open>uint64\<close> is a 64-bit word: \<open>+\<close>, \<open>*\<close> and \<open>-\<close> wrap around. Go's
  \<open>uint\<close> is modelled at its width on the 64-bit platforms the node is built for;
  \<open>uint64(x)\<close> of such a value is then the identity. An integer division by zero
  panics in Go, which the model returns as the error \<open>PanicDivideByZero\<close>.
\<close>

type_synonym u64 = "64 word"

datatype error =
    ErrExternal nat
  | ErrZeroDelegate
  | PanicDivideByZero

section \<open>The rolling-DPoS context (consensus/scheme/rolldpos2/rolldpos.go)\<close>

text \<open>
  The collaborators of \<open>rollDPoSCtx\<close> are interfaces of other packages. The two
  functions modelled here only read from them, so each collaborator is the record of what
  its read-only methods return at the time of the call: \<open>TipHeight()\<close> of the chain and
  \<open>NumDelegatesPerEpoch()\<close> of the delegate pool, each either an error or a value.
\<close>

record RollDPoS =
  NumSubEpochs :: u64

record ChainReader =
  TipHeight :: "error + u64"

record Pool =
  NumDelegatesPerEpoch :: "error + u64"

record epochCtx =
  num :: u64
  height :: u64
  numSubEpochs :: u64
  delegates :: "string list"

record rollDPoSCtx =
  cfg :: RollDPoS
  addr :: string
  chain :: ChainReader
  pool :: Pool
  epoch :: epochCtx

text \<open>\<open>getNumSubEpochs\<close>: 1 unless the configured number is positive.\<close>

definition getNumSubEpochs :: "'a rollDPoSCtx_scheme \<Rightarrow> u64" where
  "getNumSubEpochs ctx =
     (if NumSubEpochs (cfg ctx) > 0 then NumSubEpochs (cfg ctx) else 1)"

text \<open>
  \<open>calcEpochNumAndHeight\<close>: both errors are passed on; the division has no guard in the
  source, so a zero divisor is the panic.
\<close>

definition calcEpochNumAndHeight :: "'a rollDPoSCtx_scheme \<Rightarrow> error + (u64 \<times> u64)" where
  "calcEpochNumAndHeight ctx =
     (case TipHeight (chain ctx) of
        Inl err \<Rightarrow> Inl err
      | Inr h \<Rightarrow>
          (case NumDelegatesPerEpoch (pool ctx) of
             Inl err \<Rightarrow> Inl err
           | Inr numDlgs \<Rightarrow>
               (let subEpochNum = getNumSubEpochs ctx in
                if numDlgs * subEpochNum = 0 then Inl PanicDivideByZero
                else
                  (let epochNum = h div (numDlgs * subEpochNum) + 1;
                       epochHeight = numDlgs * subEpochNum * (epochNum - 1) + 1
                   in Inr (epochNum, epochHeight)))))"

text \<open>
  \<open>rotatedProposer\<close>: the chain error first, then the next height \<open>height++\<close>, then the
  check of the delegate list on its length (an \<open>int\<close> in Go), then the indexing with
  \<open>height % uint64(numDelegates)\<close>.
\<close>

definition rotatedProposer :: "'a rollDPoSCtx_scheme \<Rightarrow> error + (string \<times> u64)" where
  "rotatedProposer ctx =
     (case TipHeight (chain ctx) of
        Inl err \<Rightarrow> Inl err
      | Inr h0 \<Rightarrow>
          (let h = h0 + 1;
               numDelegates = length (delegates (epoch ctx))
           in if numDelegates = 0 then Inl ErrZeroDelegate
              else Inr (delegates (epoch ctx) ! unat (h mod word_of_nat numDelegates), h)))"

section \<open>The block buffer (package blocksync)\<close>

subsection \<open>Blocks and the chain\<close>

text \<open>
  The buffer reads one thing of a block, its height; the rest of the block is an opaque
  payload.
\<close>

record Block =
  Height :: u64
  Payload :: nat

text \<open>
  Modelled from the spec: the chain behind \<open>bc.TipHeight()\<close> and \<open>commitBlock\<close> is not
  in the source (it is the external ChainView of the spec: "exposes current committed
  height and a commit operation", \<open>commit(Block) -> () | Err(CommitFailure)\<close>, and after
  a commit the "height advances"). The chain is its tip height together with the log of
  every call of the commit operation, newest first: the block passed and whether the
  commit succeeded. Whether a commit fails is not decided by the buffer, so it is a
  parameter of the model: an oracle that sees the chain (with its whole log) and the
  block, which lets every call fail or succeed independently. A successful commit moves
  the tip to the height of the block; a failed one leaves the tip where it was.
\<close>

record Blockchain =
  tipHeight :: u64
  calls :: "(Block \<times> bool) list"

type_synonym commit_oracle = "Blockchain \<Rightarrow> Block \<Rightarrow> bool"

text \<open>
  Modelled from the spec: \<open>commitBlock\<close> is called by \<open>Flush\<close> and defined in a file
  of the package that is not in the source. It is the commit operation of the ChainView:
  it succeeds or fails as the oracle says, and every call is logged.
\<close>

definition commitBlock :: "commit_oracle \<Rightarrow> Blockchain \<Rightarrow> Block \<Rightarrow> bool \<times> Blockchain" where
  "commitBlock ok c blk =
     (if ok c blk
      then (True, c\<lparr>tipHeight := Height blk, calls := (blk, True) # calls c\<rparr>)
      else (False, c\<lparr>calls := (blk, False) # calls c\<rparr>))"

subsection \<open>The buffer\<close>

datatype bCheckinResult =
    bCheckinValid
  | bCheckinLower
  | bCheckinExisting
  | bCheckinHigher
  | bCheckinSkipNil

text \<open>
  The fields of \<open>blockBuffer\<close> that the functions use. The mutex is left out: every
  function holds it from its first line to its return, so calls are atomic and a sequence
  of calls is a sequence of state transformers.
\<close>

record blockBuffer =
  blocks :: "u64 \<rightharpoonup> Block"
  bc :: Blockchain
  size_b :: u64
  commitHeight :: u64

definition CommitHeight :: "blockBuffer \<Rightarrow> u64" where
  "CommitHeight b = commitHeight b"

text \<open>
  The loop of \<open>Flush\<close> (lines 72 to 85): \<open>lim\<close> is \<open>confirmedHeight + b.size\<close>, computed
  once, \<open>h\<close> is \<open>heightToSync\<close>. The entry is deleted before the commit is tried; a failed
  commit breaks out of the loop with \<open>heightToSync\<close> unchanged. The loop returns the
  final \<open>heightToSync\<close> and the buffer. Every round that goes on has deleted an entry of
  the map, which is the measure of termination (the counter itself may wrap around).
\<close>

function drain :: "commit_oracle \<Rightarrow> u64 \<Rightarrow> u64 \<Rightarrow> blockBuffer \<Rightarrow> u64 \<times> blockBuffer" where
  "drain ok lim h b =
     (if h \<le> lim then
        (case blocks b h of
           None \<Rightarrow> (h, b)
         | Some blk \<Rightarrow>
             (if fst (commitBlock ok (bc b) blk)
              then drain ok lim (h + 1)
                     (b\<lparr>blocks := (blocks b)(h := None),
                        bc := snd (commitBlock ok (bc b) blk),
                        commitHeight := h\<rparr>)
              else (h, b\<lparr>blocks := (blocks b)(h := None),
                         bc := snd (commitBlock ok (bc b) blk)\<rparr>)))
      else (h, b))"
  by pat_completeness auto
termination
proof (relation "measure (\<lambda>(ok, lim, h, b). card (dom (blocks b)))")
  show "wf (measure (\<lambda>(ok, lim, h, b). card (dom (blocks b))))"
    by simp
next
  fix ok :: commit_oracle and lim h :: u64 and b :: blockBuffer and blk :: Block
  assume "blocks b h = Some blk"
  then have "h \<in> dom (blocks b)"
    by blast
  then have "card (dom (blocks b) - {h}) < card (dom (blocks b))"
    by (rule card_Diff1_less [OF finite])
  then show "((ok, lim, h + 1,
                b\<lparr>blocks := (blocks b)(h := None),
                   bc := snd (commitBlock ok (bc b) blk),
                   commitHeight := h\<rparr>),
               (ok, lim, h, b))
             \<in> measure (\<lambda>(ok, lim, h, b). card (dom (blocks b)))"
    by simp
qed

text \<open>
  The clean-up after the loop: \<open>len(b.blocks) > int(b.size)*2\<close> compares two signed
  64-bit integers, the right one being the wrapped product; every key not above the
  \<open>confirmedHeight\<close> read at the start of the call is deleted.
\<close>

definition cleanup :: "u64 \<Rightarrow> blockBuffer \<Rightarrow> blockBuffer" where
  "cleanup confirmedHeight b =
     (if sint (size_b b * 2) < int (card (dom (blocks b)))
      then b\<lparr>blocks := (\<lambda>h. if h \<le> confirmedHeight then None else blocks b h)\<rparr>
      else b)"

text \<open>
  \<open>Flush\<close>: the argument is a pointer, \<open>None\<close> is \<open>nil\<close>. The result is the pair the
  source returns and the buffer after the call.
\<close>

definition Flush :: "commit_oracle \<Rightarrow> Block option \<Rightarrow> blockBuffer \<Rightarrow> (bool \<times> bCheckinResult) \<times> blockBuffer" where
  "Flush ok blk b =
     (case blk of
        None \<Rightarrow> ((False, bCheckinSkipNil), b)
      | Some blk \<Rightarrow>
          (let confirmedHeight = tipHeight (bc b);
               blkHeight = Height blk
           in if blkHeight \<le> confirmedHeight then ((False, bCheckinLower), b)
              else if blocks b blkHeight \<noteq> None then ((False, bCheckinExisting), b)
              else if blkHeight > confirmedHeight + size_b b then ((False, bCheckinHigher), b)
              else
                (let (heightToSync, b') =
                       drain ok (confirmedHeight + size_b b) (confirmedHeight + 1)
                         (b\<lparr>blocks := (blocks b)(blkHeight \<mapsto> blk)\<rparr>)
                 in ((heightToSync > blkHeight, bCheckinValid), cleanup confirmedHeight b'))))"

declare drain.simps [simp del]

text \<open>A sequence of calls of \<open>Flush\<close>, each with its own argument and its own oracle.\<close>

fun flushes :: "(commit_oracle \<times> Block option) list \<Rightarrow> blockBuffer \<Rightarrow> blockBuffer" where
  "flushes [] b = b"
| "flushes ((ok, blk) # cs) b = flushes cs (snd (Flush ok blk b))"

subsection \<open>The intervals to synchronise\<close>

record syncBlocksInterval =
  Start :: u64
  End :: u64

text \<open>
  The loop of \<open>GetBlocksIntervalsToSync\<close> (lines 120 to 132) over its three variables
  \<open>start\<close>, \<open>startSet\<close> and \<open>bi\<close>. Its counter is a \<open>uint64\<close> compared with
  \<open>h <= targetHeight\<close>: with \<open>targetHeight\<close> the largest \<open>uint64\<close> the condition
  never fails and the loop does not end, so the loop is a partial function and \<open>None\<close>
  is a call that never returns.
\<close>

partial_function (option) scan ::
  "(u64 \<rightharpoonup> Block) \<Rightarrow> u64 \<Rightarrow> u64 \<Rightarrow> u64 \<Rightarrow> bool \<Rightarrow> syncBlocksInterval list
     \<Rightarrow> (u64 \<times> bool \<times> syncBlocksInterval list) option" where
  "scan blks targetHeight h start startSet bi =
     (if h \<le> targetHeight then
        (if blks h = None then
           (if \<not> startSet then scan blks targetHeight (h + 1) h True bi
            else scan blks targetHeight (h + 1) start startSet bi)
         else if startSet then
           scan blks targetHeight (h + 1) start False
             (bi @ [\<lparr>Start = start, End = h - 1\<rparr>])
         else scan blks targetHeight (h + 1) start startSet bi)
      else Some (start, startSet, bi))"

definition GetBlocksIntervalsToSync :: "blockBuffer \<Rightarrow> u64 \<Rightarrow> syncBlocksInterval list option" where
  "GetBlocksIntervalsToSync b targetHeight0 =
     (let confirmedHeight = tipHeight (bc b) in
      if confirmedHeight \<ge> targetHeight0 then Some []
      else
        (let targetHeight =
               (if targetHeight0 > confirmedHeight + size_b b
                then confirmedHeight + size_b b else targetHeight0)
         in case scan (blocks b) targetHeight (confirmedHeight + 1) 0 False [] of
              None \<Rightarrow> None
            | Some (start, startSet, bi) \<Rightarrow>
                (if blocks b targetHeight = None
                 then Some (bi @ [\<lparr>Start = (if \<not> startSet then targetHeight else start),
                                    End = targetHeight\<rparr>])
                 else Some bi)))"

section \<open>Invariants and the specification of the loop\<close>

subsection \<open>Invariants of the buffer\<close>

text \<open>
  \<open>Flush\<close> stores a block under its own height, and only above the tip, so never under
  the key 0. A buffer that starts out empty therefore always satisfies \<open>pending_ok\<close>.
\<close>

definition pending_ok :: "blockBuffer \<Rightarrow> bool" where
  "pending_ok b \<longleftrightarrow> (\<forall>k x. blocks b k = Some x \<longrightarrow> Height x = k \<and> k \<noteq> 0)"

text \<open>
  The admission window of the spec's data model, in unbounded arithmetic: no pending
  height lies beyond the tip height plus the window size.
\<close>

definition in_window :: "blockBuffer \<Rightarrow> bool" where
  "in_window b \<longleftrightarrow>
     (\<forall>k x. blocks b k = Some x \<longrightarrow> unat k \<le> unat (tipHeight (bc b)) + unat (size_b b))"

text \<open>
  The log of the chain is read newest first. \<open>no_recommit\<close>: whenever a block was passed
  to the commit operation, no earlier call had succeeded at the same height.
  \<open>log_ok\<close> adds that no successful commit lies above the tip. \<open>committed\<close> are the
  blocks whose commit succeeded.
\<close>

fun no_recommit :: "(Block \<times> bool) list \<Rightarrow> bool" where
  "no_recommit [] = True"
| "no_recommit (e # older) =
     (list_all (\<lambda>e'. \<not> (snd e' \<and> Height (fst e') = Height (fst e))) older \<and> no_recommit older)"

definition log_ok :: "Blockchain \<Rightarrow> bool" where
  "log_ok c \<longleftrightarrow>
     no_recommit (calls c) \<and> list_all (\<lambda>e. snd e \<longrightarrow> Height (fst e) \<le> tipHeight c) (calls c)"

definition committed :: "Blockchain \<Rightarrow> Block list" where
  "committed c = map fst (filter snd (calls c))"

subsection \<open>What one run of the loop does\<close>

text \<open>
  A run of the loop that started at \<open>h0\<close> and stands at \<open>h\<close> has handled the heights
  \<open>h0, h0 + 1, \<dots>\<close> up to but excluding \<open>h\<close>, counted in \<open>uint64\<close>: \<open>drained\<close>.
  Each of them was committed, in this order: \<open>run_log\<close> are the entries the run added to
  the log of the chain, newest first. \<open>drain_inv\<close> is the loop invariant relating the
  buffer \<open>b\<close> at the head of the loop to the buffer \<open>b0\<close> the loop started with.
\<close>

definition drained :: "u64 \<Rightarrow> u64 \<Rightarrow> u64 \<Rightarrow> bool" where
  "drained h0 h k \<longleftrightarrow> k - h0 < h - h0"

definition run_log :: "blockBuffer \<Rightarrow> u64 \<Rightarrow> u64 \<Rightarrow> (Block \<times> bool) list" where
  "run_log b0 h0 h =
     map (\<lambda>i. (the (blocks b0 (h0 + word_of_nat i)), True)) (rev [0..<unat (h - h0)])"

definition drain_inv :: "blockBuffer \<Rightarrow> u64 \<Rightarrow> u64 \<Rightarrow> blockBuffer \<Rightarrow> bool" where
  "drain_inv b0 h0 h b \<longleftrightarrow>
     blocks b = (\<lambda>k. if drained h0 h k then None else blocks b0 k) \<and>
     (\<forall>k. drained h0 h k \<longrightarrow> blocks b0 k \<noteq> None) \<and>
     size_b b = size_b b0 \<and>
     tipHeight (bc b) = (if h = h0 then tipHeight (bc b0) else h - 1) \<and>
     commitHeight b = (if h = h0 then commitHeight b0 else h - 1) \<and>
     calls (bc b) = run_log b0 h0 h @ calls (bc b0)"

text \<open>
  The loop can leave in three ways: the counter is past the limit, the map has no entry at
  the counter, or the commit of the entry at the counter failed. Only in the last case the
  loop leaves at a height within the limit that had an entry: \<open>drain_failed\<close>.
  \<open>drain_post\<close> describes the buffer \<open>b\<close> and the counter \<open>h\<close> the loop returns.
\<close>

definition drain_failed :: "blockBuffer \<Rightarrow> u64 \<Rightarrow> u64 \<Rightarrow> bool" where
  "drain_failed b0 lim h \<longleftrightarrow> h \<le> lim \<and> blocks b0 h \<noteq> None"

definition drain_post :: "blockBuffer \<Rightarrow> u64 \<Rightarrow> u64 \<Rightarrow> u64 \<Rightarrow> blockBuffer \<Rightarrow> bool" where
  "drain_post b0 h0 lim h b \<longleftrightarrow>
     blocks b = (\<lambda>k. if drained h0 h k \<or> (drain_failed b0 lim h \<and> k = h) then None
                     else blocks b0 k) \<and>
     (\<forall>k. drained h0 h k \<longrightarrow> blocks b0 k \<noteq> None) \<and>
     size_b b = size_b b0 \<and>
     tipHeight (bc b) = (if h = h0 then tipHeight (bc b0) else h - 1) \<and>
     commitHeight b = (if h = h0 then commitHeight b0 else h - 1) \<and>
     calls (bc b) =
       (if drain_failed b0 lim h then [(the (blocks b0 h), False)] else [])
       @ run_log b0 h0 h @ calls (bc b0)"

subsection \<open>Lists of intervals\<close>

text \<open>
  \<open>ascending\<close>: every interval is closed and non-empty, and each one ends before the
  next one starts, so the intervals are disjoint and in ascending order. \<open>covered\<close> is
  the union of the intervals. \<open>scan_inv\<close> is the invariant of the loop of
  \<open>GetBlocksIntervalsToSync\<close>, started at the height \<open>lo\<close>, at the head of the loop
  with the counter \<open>h\<close>; \<open>last_block\<close> is the step after the loop.
\<close>

fun ascending :: "syncBlocksInterval list \<Rightarrow> bool" where
  "ascending [] = True"
| "ascending [iv] = (Start iv \<le> End iv)"
| "ascending (iv # iv' # ivs) = (Start iv \<le> End iv \<and> End iv < Start iv' \<and> ascending (iv' # ivs))"

definition covered :: "syncBlocksInterval list \<Rightarrow> u64 set" where
  "covered ivs = {k. \<exists>iv \<in> set ivs. Start iv \<le> k \<and> k \<le> End iv}"

definition scan_inv ::
  "(u64 \<rightharpoonup> Block) \<Rightarrow> u64 \<Rightarrow> u64 \<Rightarrow> u64 \<Rightarrow> bool \<Rightarrow> syncBlocksInterval list \<Rightarrow> bool" where
  "scan_inv blks lo h start startSet bi \<longleftrightarrow>
     lo \<le> h \<and> ascending bi \<and>
     (\<forall>iv \<in> set bi. lo \<le> Start iv \<and> End iv < (if startSet then start else h)) \<and>
     (startSet \<longrightarrow> lo \<le> start \<and> start < h \<and> (\<forall>k. start \<le> k \<and> k < h \<longrightarrow> blks k = None)) \<and>
     (\<not> startSet \<longrightarrow> h = lo \<or> blks (h - 1) \<noteq> None) \<and>
     (\<forall>k. k \<in> covered bi \<or> (startSet \<and> start \<le> k \<and> k < h)
         \<longleftrightarrow> lo \<le> k \<and> k < h \<and> blks k = None)"

definition last_block ::
  "(u64 \<rightharpoonup> Block) \<Rightarrow> u64 \<Rightarrow> (u64 \<times> bool \<times> syncBlocksInterval list) option
     \<Rightarrow> syncBlocksInterval list option" where
  "last_block blks target r =
     (case r of
        None \<Rightarrow> None
      | Some (start, startSet, bi) \<Rightarrow>
          (if blks target = None
           then Some (bi @ [\<lparr>Start = (if \<not> startSet then target else start), End = target\<rparr>])
           else Some bi))"

subsection \<open>Example states\<close>

text \<open>Concrete contexts and buffers on which the theorems below are exercised.\<close>

definition ctx2 :: rollDPoSCtx where
  "ctx2 = \<lparr>cfg = \<lparr>NumSubEpochs = 0\<rparr>, addr = ''io1'', chain = \<lparr>TipHeight = Inr 2\<rparr>,
           pool = \<lparr>NumDelegatesPerEpoch = Inr 2\<rparr>,
           epoch = \<lparr>num = 1, height = 1, numSubEpochs = 1, delegates = [''x'', ''y'']\<rparr>\<rparr>"

definition ctx9 :: rollDPoSCtx where
  "ctx9 = \<lparr>cfg = \<lparr>NumSubEpochs = 0\<rparr>, addr = ''io1'', chain = \<lparr>TipHeight = Inr 0\<rparr>,
           pool = \<lparr>NumDelegatesPerEpoch = Inr 24\<rparr>,
           epoch = \<lparr>num = 0, height = 0, numSubEpochs = 0, delegates = []\<rparr>\<rparr>"

definition ctx_big :: rollDPoSCtx where
  "ctx_big = ctx9\<lparr>pool := \<lparr>NumDelegatesPerEpoch = Inr (2 ^ 63)\<rparr>, cfg := \<lparr>NumSubEpochs = 2\<rparr>\<rparr>"

definition ctxABC :: rollDPoSCtx where
  "ctxABC = \<lparr>cfg = \<lparr>NumSubEpochs = 1\<rparr>, addr = ''io1'', chain = \<lparr>TipHeight = Inr 7\<rparr>,
             pool = \<lparr>NumDelegatesPerEpoch = Inr 3\<rparr>,
             epoch = \<lparr>num = 1, height = 1, numSubEpochs = 1,
                      delegates = [''A'', ''B'', ''C'']\<rparr>\<rparr>"

definition blockAt :: "u64 \<Rightarrow> Block" where
  "blockAt h = \<lparr>Height = h, Payload = 0\<rparr>"

definition always_ok :: commit_oracle where
  "always_ok c blk = True"

definition never_ok :: commit_oracle where
  "never_ok c blk = False"

definition buf10 :: blockBuffer where
  "buf10 = \<lparr>blocks = Map.empty, bc = \<lparr>tipHeight = 10, calls = []\<rparr>, size_b = 5,
            commitHeight = 10\<rparr>"

definition fail_at :: "u64 \<Rightarrow> commit_oracle" where
  "fail_at h c blk = (Height blk \<noteq> h)"

definition buf_run :: blockBuffer where
  "buf_run = buf10\<lparr>blocks := [12 \<mapsto> blockAt 12, 13 \<mapsto> blockAt 13]\<rparr>"

definition buf_run' :: blockBuffer where
  "buf_run' = buf10\<lparr>blocks := [13 \<mapsto> blockAt 13],
                    bc := \<lparr>tipHeight = 11, calls = [(blockAt 12, False), (blockAt 11, True)]\<rparr>,
                    commitHeight := 11\<rparr>"

definition buf_gaps :: blockBuffer where
  "buf_gaps = buf10\<lparr>blocks := [12 \<mapsto> blockAt 12, 14 \<mapsto> blockAt 14]\<rparr>"



section \<open>Properties of the rolling-DPoS context\<close>

lemma getNumSubEpochs_max: "getNumSubEpochs ctx = max (NumSubEpochs (cfg ctx)) 1"
proof (cases "NumSubEpochs (cfg ctx) = 0")
  case True
  then show ?thesis
    by (simp add: getNumSubEpochs_def)
next
  case False
  then have "0 < NumSubEpochs (cfg ctx)"
    by (simp add: word_greater_zero_iff)
  moreover from this have "1 \<le> NumSubEpochs (cfg ctx)"
    by (simp add: word_le_nat_alt word_less_nat_alt)
  ultimately show ?thesis
    by (simp add: getNumSubEpochs_def max_def)
qed

lemma getNumSubEpochs_pos: "1 \<le> getNumSubEpochs ctx"
  by (simp add: getNumSubEpochs_max)

lemma rotatedProposer_chain_error:
  "TipHeight (chain ctx) = Inl e \<Longrightarrow> rotatedProposer ctx = Inl e"
  by (simp add: rotatedProposer_def)

lemma calcEpochNumAndHeight_errors:
  "TipHeight (chain ctx) = Inl e \<Longrightarrow> calcEpochNumAndHeight ctx = Inl e"
  "TipHeight (chain ctx) = Inr h \<Longrightarrow> NumDelegatesPerEpoch (pool ctx) = Inl e \<Longrightarrow>
     calcEpochNumAndHeight ctx = Inl e"
  by (simp_all add: calcEpochNumAndHeight_def)

text \<open>
  Claim C7. When the chain gives its tip height \<open>h\<close>, \<open>rotatedProposer\<close> fails with
  the zero-delegate error exactly when the delegate list is empty, and otherwise returns
  the delegate at index \<open>(h + 1) mod n\<close> of the \<open>n\<close> delegates together with \<open>h + 1\<close>
  (in \<open>uint64\<close> arithmetic). The result is a function of the tip height and the
  delegate list alone: two contexts that agree on both return the same result, whatever
  their other fields. The length of a Go slice is an \<open>int\<close>, hence below \<open>2 ^ 64\<close>.
\<close>

theorem rotatedProposer_spec:
  assumes tip: "TipHeight (chain ctx) = Inr h"
    and len: "length (delegates (epoch ctx)) < 2 ^ 64"
  shows "(rotatedProposer ctx = Inl ErrZeroDelegate \<longleftrightarrow> delegates (epoch ctx) = []) \<and>
         (delegates (epoch ctx) \<noteq> [] \<longrightarrow>
            rotatedProposer ctx =
              Inr (delegates (epoch ctx) ! (unat (h + 1) mod length (delegates (epoch ctx))),
                   h + 1)) \<and>
         (\<forall>ctx'. TipHeight (chain ctx') = TipHeight (chain ctx) \<and>
                 delegates (epoch ctx') = delegates (epoch ctx) \<longrightarrow>
                 rotatedProposer ctx' = rotatedProposer (ctx :: 'a rollDPoSCtx_scheme))"
proof -
  have idx: "unat ((h + 1) mod word_of_nat (length (delegates (epoch ctx))))
             = unat (h + 1) mod length (delegates (epoch ctx))"
    using len by (simp add: unat_mod unat_of_nat)
  show ?thesis
    using tip idx by (simp add: rotatedProposer_def Let_def)
qed

theorem rotatedProposer_spec_witness:
  "TipHeight (chain ctx2) = Inr 2 \<and> length (delegates (epoch ctx2)) < 2 ^ 64 \<and>
   rotatedProposer ctx2 = Inr (''y'', 3)"
proof -
  have t: "TipHeight (chain ctx2) = Inr 2"
    by (simp add: ctx2_def)
  have l: "length (delegates (epoch ctx2)) < 2 ^ 64"
    by (simp add: ctx2_def)
  have ne: "delegates (epoch ctx2) \<noteq> []"
    by (simp add: ctx2_def)
  from rotatedProposer_spec [OF t l] ne
  have "rotatedProposer ctx2 =
          Inr (delegates (epoch ctx2) ! (unat (2 + 1 :: u64) mod length (delegates (epoch ctx2))),
               2 + 1)"
    by blast
  moreover have "unat (2 + 1 :: u64) mod length (delegates (epoch ctx2)) = 1"
    by (simp add: ctx2_def numeral_2_eq_2 [symmetric])
  ultimately have "rotatedProposer ctx2 = Inr (''y'', 3)"
    by (simp add: ctx2_def)
  with t l show ?thesis
    by blast
qed

text \<open>
  Claim C8, as stated: with the delegates \<open>[A, B, C]\<close> and the tip height 7 the result
  would be \<open>(B, 8)\<close>. It is not: \<open>8 mod 3 = 2\<close> and the list is indexed from zero.
\<close>

theorem rotatedProposer_example_not_B:
  "rotatedProposer ctxABC \<noteq> Inr (''B'', 8)"
  by (simp add: rotatedProposer_def ctxABC_def)

text \<open>
  Claim C8, amended: with the delegates \<open>[A, B, C]\<close> and the tip height 7,
  \<open>rotatedProposer\<close> returns \<open>(C, 8)\<close>.
\<close>

theorem rotatedProposer_example:
  "rotatedProposer ctxABC = Inr (''C'', 8)"
  by (simp add: rotatedProposer_def ctxABC_def)

text \<open>
  Claim C9. When the chain gives its tip height \<open>h\<close>, the pool gives \<open>n\<close> delegates per
  epoch and the divisor is not zero, \<open>calcEpochNumAndHeight\<close> returns the epoch number
  \<open>h / (n * s) + 1\<close> and the epoch start height \<open>n * s * (epochNumber - 1) + 1\<close> (in
  \<open>uint64\<close> arithmetic), where \<open>s\<close> is the effective number of sub-epochs, the larger
  of the configured number and 1. With 0 configured, 24 delegates and tip height 0 the
  result is \<open>(1, 1)\<close>.
\<close>

theorem calcEpochNumAndHeight_spec:
  assumes tip: "TipHeight (chain ctx) = Inr h"
    and dlg: "NumDelegatesPerEpoch (pool ctx) = Inr n"
    and nz: "n * max (NumSubEpochs (cfg ctx)) 1 \<noteq> 0"
  shows "getNumSubEpochs ctx = max (NumSubEpochs (cfg ctx)) 1 \<and>
         calcEpochNumAndHeight ctx =
           Inr (h div (n * max (NumSubEpochs (cfg ctx)) 1) + 1,
                n * max (NumSubEpochs (cfg ctx)) 1 *
                  ((h div (n * max (NumSubEpochs (cfg ctx)) 1) + 1) - 1) + 1) \<and>
         (NumSubEpochs (cfg ctx) = 0 \<and> n = 24 \<and> h = 0 \<longrightarrow>
            calcEpochNumAndHeight ctx = Inr (1, 1))"
proof -
  have m: "getNumSubEpochs ctx = max (NumSubEpochs (cfg ctx)) 1"
    by (rule getNumSubEpochs_max)
  have c: "calcEpochNumAndHeight ctx =
           Inr (h div (n * max (NumSubEpochs (cfg ctx)) 1) + 1,
                n * max (NumSubEpochs (cfg ctx)) 1 *
                  ((h div (n * max (NumSubEpochs (cfg ctx)) 1) + 1) - 1) + 1)"
    using tip dlg nz by (simp add: calcEpochNumAndHeight_def m Let_def)
  have e: "NumSubEpochs (cfg ctx) = 0 \<and> n = 24 \<and> h = 0 \<longrightarrow>
            calcEpochNumAndHeight ctx = Inr (1, 1)"
    using c by (simp add: max_def)
  from m c e show ?thesis
    by blast
qed

theorem calcEpochNumAndHeight_spec_witness:
  "TipHeight (chain ctx9) = Inr 0 \<and> NumDelegatesPerEpoch (pool ctx9) = Inr 24 \<and>
   (24 :: u64) * max (NumSubEpochs (cfg ctx9)) 1 \<noteq> 0 \<and>
   getNumSubEpochs ctx9 = 1 \<and> calcEpochNumAndHeight ctx9 = Inr (1, 1)"
proof -
  have t: "TipHeight (chain ctx9) = Inr 0"
    by (simp add: ctx9_def)
  have d: "NumDelegatesPerEpoch (pool ctx9) = Inr 24"
    by (simp add: ctx9_def)
  have z: "NumSubEpochs (cfg ctx9) = 0"
    by (simp add: ctx9_def)
  have nz: "(24 :: u64) * max (NumSubEpochs (cfg ctx9)) 1 \<noteq> 0"
    by (simp add: z)
  from calcEpochNumAndHeight_spec [OF t d nz] z
  have "getNumSubEpochs ctx9 = 1 \<and> calcEpochNumAndHeight ctx9 = Inr (1, 1)"
    by simp
  with t d nz show ?thesis
    by blast
qed

text \<open>
  Claim C10, as stated: whenever the pool returns a number of delegates \<open>n \<ge> 1\<close> the
  divisor would be nonzero. The product is taken in \<open>uint64\<close>: with \<open>n = 2 ^ 63\<close> and
  2 sub-epochs configured it wraps around to 0 and the division panics.
\<close>

theorem calcEpochNumAndHeight_overflow_panics:
  "NumDelegatesPerEpoch (pool ctx_big) = Inr (2 ^ 63) \<and> (1 :: u64) \<le> 2 ^ 63 \<and>
   (2 ^ 63 :: u64) * getNumSubEpochs ctx_big = 0 \<and>
   calcEpochNumAndHeight ctx_big = Inl PanicDivideByZero"
  by (simp add: ctx_big_def ctx9_def calcEpochNumAndHeight_def getNumSubEpochs_def)

text \<open>
  Claim C10, amended: \<open>getNumSubEpochs\<close> returns at least 1 for every configuration;
  for every call in which the pool returns \<open>n \<ge> 1\<close> and the product of \<open>n\<close> and the
  number of sub-epochs does not overflow \<open>uint64\<close>, the divisor is nonzero and the
  division does not panic; when the pool returns 0 the divisor is zero and the call
  panics.
\<close>

theorem calcEpochNumAndHeight_divisor:
  assumes tip: "TipHeight (chain ctx) = Inr h"
    and dlg: "NumDelegatesPerEpoch (pool ctx) = Inr n"
  shows "1 \<le> getNumSubEpochs ctx \<and>
         (1 \<le> n \<and> unat n * unat (getNumSubEpochs ctx) < 2 ^ 64 \<longrightarrow>
            n * getNumSubEpochs ctx \<noteq> 0 \<and> calcEpochNumAndHeight ctx \<noteq> Inl PanicDivideByZero) \<and>
         (n = 0 \<longrightarrow> n * getNumSubEpochs ctx = 0 \<and>
            calcEpochNumAndHeight ctx = Inl PanicDivideByZero)"
proof -
  have s: "1 \<le> getNumSubEpochs ctx"
    by (rule getNumSubEpochs_pos)
  have a: "n * getNumSubEpochs ctx \<noteq> 0 \<and> calcEpochNumAndHeight ctx \<noteq> Inl PanicDivideByZero"
    if n1: "1 \<le> n" and nov: "unat n * unat (getNumSubEpochs ctx) < 2 ^ 64"
  proof -
    have "unat (n * getNumSubEpochs ctx) = unat n * unat (getNumSubEpochs ctx)"
      using nov by (simp add: unat_mult_lem [THEN iffD1])
    moreover have "1 \<le> unat n" "1 \<le> unat (getNumSubEpochs ctx)"
      using n1 s by (simp_all add: word_le_nat_alt)
    ultimately have "0 < unat (n * getNumSubEpochs ctx)"
      by simp
    then have nz: "n * getNumSubEpochs ctx \<noteq> 0"
      by (auto simp: unat_gt_0)
    then show ?thesis
      using tip dlg by (simp add: calcEpochNumAndHeight_def Let_def)
  qed
  have b: "n = 0 \<longrightarrow> n * getNumSubEpochs ctx = 0 \<and>
            calcEpochNumAndHeight ctx = Inl PanicDivideByZero"
    using tip dlg by (simp add: calcEpochNumAndHeight_def Let_def)
  from s a b show ?thesis
    by blast
qed

theorem calcEpochNumAndHeight_divisor_witness:
  "TipHeight (chain ctx9) = Inr 0 \<and> NumDelegatesPerEpoch (pool ctx9) = Inr 24 \<and>
   (1 :: u64) \<le> 24 \<and> unat (24 :: u64) * unat (getNumSubEpochs ctx9) < 2 ^ 64 \<and>
   (24 :: u64) * getNumSubEpochs ctx9 \<noteq> 0 \<and> calcEpochNumAndHeight ctx9 \<noteq> Inl PanicDivideByZero"
proof -
  have t: "TipHeight (chain ctx9) = Inr 0"
    by (simp add: ctx9_def)
  have d: "NumDelegatesPerEpoch (pool ctx9) = Inr 24"
    by (simp add: ctx9_def)
  have g: "getNumSubEpochs ctx9 = 1"
    by (simp add: getNumSubEpochs_def ctx9_def)
  have n1: "(1 :: u64) \<le> 24"
    by simp
  have nov: "unat (24 :: u64) * unat (getNumSubEpochs ctx9) < 2 ^ 64"
    by (simp add: g)
  from calcEpochNumAndHeight_divisor [OF t d] n1 nov
  have "(24 :: u64) * getNumSubEpochs ctx9 \<noteq> 0 \<and>
        calcEpochNumAndHeight ctx9 \<noteq> Inl PanicDivideByZero"
    by blast
  with t d n1 nov show ?thesis
    by blast
qed

section \<open>Properties of the block buffer\<close>

subsection \<open>Arithmetic of \<open>uint64\<close> counters\<close>

lemma word_succ_facts:
  "t < k \<Longrightarrow> t < t + 1 \<and> t + 1 \<le> k \<and> t + 1 \<noteq> 0" for t k :: "'a::len word"
  by uint_arith

lemma word_pred_ge:
  "h0 \<le> h \<Longrightarrow> h \<noteq> h0 \<Longrightarrow> t + 1 = h0 \<Longrightarrow> t < h0 \<Longrightarrow> t \<le> h - 1 \<and> h - 1 < h"
  for h0 :: "'a::len word"
  by uint_arith

lemma word_lt_pred: "k < h \<Longrightarrow> k \<le> h - 1" for k :: "'a::len word"
  by uint_arith

lemma word_step_up: "t < h \<Longrightarrow> h < h + 1 \<or> h + 1 = 0" for h :: "'a::len word"
  by uint_arith

lemma word_diff_range:
  "h0 \<le> h1 \<Longrightarrow> (k - h0 < h1 - h0) \<longleftrightarrow> (h0 \<le> k \<and> k < h1)" for h0 :: "'a::len word"
  by uint_arith

lemma unat_add_le_sum: "unat (a + b) \<le> unat a + unat b" for a :: "'a::len word"
  by (simp add: unat_word_ariths)

lemma unat_neg_diff:
  "h0 \<noteq> 0 \<Longrightarrow> unat (0 - h0) = 2 ^ LENGTH('a) - unat h0" for h0 :: "'a::len word"
  using unat_sub_if_size [of 0 h0] by (simp add: word_size unat_gt_0)

lemma word_diff_wrapped:
  "h0 \<noteq> 0 \<Longrightarrow> (k - h0 < 0 - h0) \<longleftrightarrow> h0 \<le> k" for h0 :: "'a::len word"
proof -
  assume nz: "h0 \<noteq> 0"
  have aux: "\<And>a b N :: nat. a < N \<Longrightarrow> b < N \<Longrightarrow> 0 < b \<Longrightarrow>
     ((if b \<le> a then a - b else a + N - b) < N - b) = (b \<le> a)"
    by auto
  have p: "0 < unat h0"
    using nz by (simp add: unat_gt_0)
  have e1: "unat (k - h0) = (if unat h0 \<le> unat k then unat k - unat h0
                             else unat k + 2 ^ LENGTH('a) - unat h0)"
    by (simp add: unat_sub_if_size word_size)
  show ?thesis
    unfolding word_less_nat_alt word_le_nat_alt e1 unat_neg_diff [OF nz]
    by (rule aux [OF unsigned_less unsigned_less p])
qed

lemma word_wrap_to_zero:
  "h1 < h0 \<Longrightarrow> h1 \<noteq> 0 \<Longrightarrow> 0 - h0 < h1 - h0" for h0 :: "'a::len word"
proof -
  assume lt: "h1 < h0" and nz: "h1 \<noteq> 0"
  have aux: "\<And>a b N :: nat. a < N \<Longrightarrow> b < N \<Longrightarrow> 0 < a \<Longrightarrow> a < b \<Longrightarrow>
     N - b < a + N - b"
    by auto
  have p: "0 < unat h1" "unat h1 < unat h0"
    using nz lt by (simp_all add: unat_gt_0 word_less_nat_alt)
  have nz0: "h0 \<noteq> 0"
    using lt by auto
  have e1: "unat (h1 - h0) = unat h1 + 2 ^ LENGTH('a) - unat h0"
    using p by (simp add: unat_sub_if_size word_size)
  show ?thesis
    unfolding word_less_nat_alt e1 unat_neg_diff [OF nz0]
    by (rule aux [OF unsigned_less unsigned_less p])
qed

lemma unat_inc_diff:
  "h + 1 \<noteq> h0 \<Longrightarrow> unat (h + 1 - h0) = Suc (unat (h - h0))" for h h0 :: "'a::len word"
proof -
  assume "h + 1 \<noteq> h0"
  then have "1 + (h - h0) \<noteq> 0"
    by (metis add.commute add_diff_eq eq_iff_diff_eq_0)
  then have "unat (1 + (h - h0)) = Suc (unat (h - h0))"
    by (rule unatSuc)
  then show ?thesis
    by (simp add: algebra_simps)
qed

lemma word_below_max:
  "target < target + 1 \<Longrightarrow> h \<le> target \<Longrightarrow> h < h + 1 \<and> h + 1 \<le> target + 1"
  for h :: "'a::len word"
  by uint_arith

lemma word_less_succ: "h < h + 1 \<Longrightarrow> (k < h + 1) = (k \<le> h)" for h :: "'a::len word"
  by uint_arith

lemma word_le_pred_iff: "s < h \<Longrightarrow> (k \<le> h - 1) = (k < h)" for h :: "'a::len word"
  by uint_arith

lemma word_pred_less: "s < h \<Longrightarrow> s \<le> h - 1 \<and> h - 1 < h" for h :: "'a::len word"
  by uint_arith

lemma word_measure_step:
  "h < h + 1 \<Longrightarrow> h + 1 \<le> t \<Longrightarrow> unat t - unat (h + 1) < unat t - unat h"
  for h :: "'a::len word"
  by unat_arith

lemma word_past_end:
  "\<not> h \<le> target \<Longrightarrow> h \<le> target + 1 \<Longrightarrow> target < target + 1 \<Longrightarrow> h = target + 1"
  for h :: "'a::len word"
  by uint_arith

lemma word_succ_no_wrap: "unat t + 1 < 2 ^ LENGTH('a) \<Longrightarrow> t < t + 1" for t :: "'a::len word"
proof -
  assume "unat t + 1 < 2 ^ LENGTH('a)"
  then have "t \<le> t + 1"
    by (simp add: no_olen_add_nat)
  then show ?thesis
    by (rule le_neq_trans) simp
qed

lemma word_le_succ: "lo \<le> t \<Longrightarrow> t < t + 1 \<Longrightarrow> t + 1 \<noteq> lo \<and> lo \<le> t + 1"
  for t :: "'a::len word"
  by uint_arith

lemma word_min_bound:
  "unat t + unat s < 2 ^ LENGTH('a) - 1 \<Longrightarrow> 1 \<le> s \<Longrightarrow> t < g \<Longrightarrow>
   t + 1 \<le> (if t + s < g then t + s else g) \<and>
   unat (if t + s < g then t + s else g) + 1 < 2 ^ LENGTH('a) \<and> t < t + 1"
  for t :: "'a::len word"
  by unat_arith

lemma word_succ_le_iff: "t < t + 1 \<Longrightarrow> (t + 1 \<le> k) = (t < k)" for t :: "'a::len word"
  by uint_arith

subsection \<open>The loop invariant\<close>

lemma drained_start: "\<not> drained h0 h0 k"
  by (simp add: drained_def)

lemma drained_self: "\<not> drained h0 h h"
  by (simp add: drained_def)

lemma drained_step:
  assumes "h + 1 \<noteq> h0"
  shows "drained h0 (h + 1) k \<longleftrightarrow> drained h0 h k \<or> k = h"
proof -
  have "k - h0 < h + 1 - h0 \<longleftrightarrow> unat (k - h0) < Suc (unat (h - h0))"
    by (simp add: word_less_nat_alt unat_inc_diff [OF assms])
  also have "\<dots> \<longleftrightarrow> unat (k - h0) < unat (h - h0) \<or> unat (k - h0) = unat (h - h0)"
    by auto
  also have "\<dots> \<longleftrightarrow> k - h0 < h - h0 \<or> k - h0 = h - h0"
    by (simp add: word_less_nat_alt word_unat_eq_iff)
  also have "\<dots> \<longleftrightarrow> k - h0 < h - h0 \<or> k = h"
    by simp
  finally show ?thesis
    by (simp add: drained_def)
qed

lemma drained_all_but:
  assumes "h + 1 = h0" and "k \<noteq> h"
  shows "drained h0 h k"
proof -
  have "h - h0 = - 1"
    unfolding assms(1) [symmetric] by simp
  moreover have "k - h0 \<noteq> - 1"
    unfolding assms(1) [symmetric] using assms(2) by (simp add: diff_add_eq_diff_diff_swap)
  ultimately show ?thesis
    by (simp add: drained_def word_order.not_eq_extremum)
qed

lemma drain_inv_start: "drain_inv b0 h0 h0 b0"
  by (simp add: drain_inv_def drained_def run_log_def)

lemma drain_no_full_turn:
  assumes inv: "drain_inv b0 h0 h b" and x: "blocks b h = Some x" and z: "blocks b0 0 = None"
  shows "h + 1 \<noteq> h0"
proof
  assume eq: "h + 1 = h0"
  have hb0: "blocks b0 h = Some x"
    using inv x by (simp add: drain_inv_def drained_self)
  then have "h \<noteq> 0"
    using z by auto
  then have "drained h0 h 0"
    by (intro drained_all_but [OF eq]) simp
  then have "blocks b0 0 \<noteq> None"
    using inv by (simp add: drain_inv_def)
  with z show False by simp
qed

text \<open>
  The proof rule of the loop: an invariant \<open>I\<close> that holds at the start and is kept by
  a round with a successful commit gives \<open>R\<close> at each of the three exits.
\<close>

lemma drain_rule:
  assumes "I h b"
    and "\<And>h b x. I h b \<Longrightarrow> h \<le> lim \<Longrightarrow> blocks b h = Some x \<Longrightarrow> ok (bc b) x \<Longrightarrow>
           I (h + 1) (b\<lparr>blocks := (blocks b)(h := None),
                        bc := (bc b)\<lparr>tipHeight := Height x, calls := (x, True) # calls (bc b)\<rparr>,
                        commitHeight := h\<rparr>)"
    and "\<And>h b x. I h b \<Longrightarrow> h \<le> lim \<Longrightarrow> blocks b h = Some x \<Longrightarrow> \<not> ok (bc b) x \<Longrightarrow>
           R h (b\<lparr>blocks := (blocks b)(h := None),
                  bc := (bc b)\<lparr>calls := (x, False) # calls (bc b)\<rparr>\<rparr>)"
    and "\<And>h b. I h b \<Longrightarrow> \<not> h \<le> lim \<or> blocks b h = None \<Longrightarrow> R h b"
  shows "R (fst (drain ok lim h b)) (snd (drain ok lim h b))"
  using assms
proof (induction ok lim h b rule: drain.induct)
  case (1 ok lim h b)
  show ?case
  proof (cases "h \<le> lim \<and> blocks b h \<noteq> None")
    case False
    then have "drain ok lim h b = (h, b)"
      by (subst drain.simps) auto
    moreover have "R h b"
      using "1.prems"(1,4) False by blast
    ultimately show ?thesis by simp
  next
    case True
    then obtain x where le: "h \<le> lim" and x: "blocks b h = Some x"
      by auto
    show ?thesis
    proof (cases "ok (bc b) x")
      case good: True
      let ?c = "(bc b)\<lparr>tipHeight := Height x, calls := (x, True) # calls (bc b)\<rparr>"
      let ?b = "b\<lparr>blocks := (blocks b)(h := None), bc := ?c, commitHeight := h\<rparr>"
      have c: "commitBlock ok (bc b) x = (True, ?c)"
        using good by (simp add: commitBlock_def)
      have unfold: "drain ok lim h b = drain ok lim (h + 1) ?b"
        by (subst drain.simps) (simp add: le x c)
      have inv: "I (h + 1) ?b"
        using "1.prems"(1,2) le x good by blast
      have "fst (commitBlock ok (bc b) x)"
        by (simp add: c)
      from "1.IH" [OF le x this] inv "1.prems"(2,3,4)
      have "R (fst (drain ok lim (h + 1) ?b)) (snd (drain ok lim (h + 1) ?b))"
        by (simp add: c)
      then show ?thesis
        by (simp add: unfold)
    next
      case bad: False
      let ?c = "(bc b)\<lparr>calls := (x, False) # calls (bc b)\<rparr>"
      let ?b = "b\<lparr>blocks := (blocks b)(h := None), bc := ?c\<rparr>"
      have c: "commitBlock ok (bc b) x = (False, ?c)"
        using bad by (simp add: commitBlock_def)
      have "drain ok lim h b = (h, ?b)"
        by (subst drain.simps) (simp add: le x c)
      moreover have "R h ?b"
        using "1.prems"(1,3) le x bad by blast
      ultimately show ?thesis by simp
    qed
  qed
qed

lemma run_log_step:
  assumes "h + 1 \<noteq> h0"
  shows "run_log b0 h0 (h + 1) = (the (blocks b0 h), True) # run_log b0 h0 h"
  by (simp add: run_log_def unat_inc_diff [OF assms])

lemma drain_inv_step:
  assumes ok: "pending_ok b0" and inv: "drain_inv b0 h0 h b" and x: "blocks b h = Some x"
  shows "drain_inv b0 h0 (h + 1)
           (b\<lparr>blocks := (blocks b)(h := None),
              bc := (bc b)\<lparr>tipHeight := Height x, calls := (x, True) # calls (bc b)\<rparr>,
              commitHeight := h\<rparr>)"
proof -
  have z: "blocks b0 0 = None"
    using ok by (cases "blocks b0 0") (auto simp: pending_ok_def)
  have nf: "h + 1 \<noteq> h0"
    using inv x z by (rule drain_no_full_turn)
  have hb0: "blocks b0 h = Some x"
    using inv x by (simp add: drain_inv_def drained_self)
  then have hx: "Height x = h"
    using ok by (simp add: pending_ok_def)
  have 1: "(blocks b)(h := None) = (\<lambda>k. if drained h0 (h + 1) k then None else blocks b0 k)"
    using inv by (auto simp: drain_inv_def drained_step [OF nf])
  have 2: "\<forall>k. drained h0 (h + 1) k \<longrightarrow> blocks b0 k \<noteq> None"
    using inv hb0 by (auto simp: drain_inv_def drained_step [OF nf])
  have 3: "(x, True) # calls (bc b) = run_log b0 h0 (h + 1) @ calls (bc b0)"
    using inv hb0 by (simp add: drain_inv_def run_log_step [OF nf])
  have 4: "size_b b = size_b b0"
    using inv by (simp add: drain_inv_def)
  show ?thesis
    unfolding drain_inv_def using 1 2 3 4 nf hx by simp
qed

lemma drain_inv_fail:
  assumes inv: "drain_inv b0 h0 h b" and le: "h \<le> lim" and x: "blocks b h = Some x"
  shows "drain_post b0 h0 lim h
           (b\<lparr>blocks := (blocks b)(h := None),
              bc := (bc b)\<lparr>calls := (x, False) # calls (bc b)\<rparr>\<rparr>)"
proof -
  have hb0: "blocks b0 h = Some x"
    using inv x by (simp add: drain_inv_def drained_self)
  then have f: "drain_failed b0 lim h"
    using le by (simp add: drain_failed_def)
  have 1: "(blocks b)(h := None) =
             (\<lambda>k. if drained h0 h k \<or> (drain_failed b0 lim h \<and> k = h) then None else blocks b0 k)"
    using inv f by (auto simp: drain_inv_def)
  show ?thesis
    unfolding drain_post_def using inv 1 f hb0 by (simp add: drain_inv_def)
qed

lemma drain_inv_stop:
  assumes inv: "drain_inv b0 h0 h b" and stop: "\<not> h \<le> lim \<or> blocks b h = None"
  shows "drain_post b0 h0 lim h b"
proof -
  have "blocks b h = blocks b0 h"
    using inv by (simp add: drain_inv_def drained_self)
  then have f: "\<not> drain_failed b0 lim h"
    using stop by (auto simp: drain_failed_def)
  show ?thesis
    unfolding drain_post_def using inv f by (simp add: drain_inv_def)
qed

lemma drain_spec:
  assumes "pending_ok b0"
  shows "drain_post b0 h0 lim (fst (drain ok lim h0 b0)) (snd (drain ok lim h0 b0))"
proof (rule drain_rule [where I = "drain_inv b0 h0"])
  show "drain_inv b0 h0 h0 b0"
    by (rule drain_inv_start)
qed (auto intro: drain_inv_step [OF assms] drain_inv_fail drain_inv_stop)

lemma run_log_success: "e \<in> set (run_log b0 h0 h) \<Longrightarrow> snd e"
  by (auto simp: run_log_def)

lemma run_log_mem:
  assumes "drained h0 h k"
  shows "(the (blocks b0 k), True) \<in> set (run_log b0 h0 h)"
proof -
  have "unat (k - h0) < unat (h - h0)"
    using assms by (simp add: drained_def word_less_nat_alt)
  moreover have "h0 + word_of_nat (unat (k - h0)) = k"
    by simp
  ultimately show ?thesis
    unfolding run_log_def by (auto simp: image_iff intro!: bexI [of _ "unat (k - h0)"])
qed

subsection \<open>The invariants are kept\<close>

lemma empty_buffer_ok: "blocks b = Map.empty \<Longrightarrow> pending_ok b \<and> in_window b"
  by (simp add: pending_ok_def in_window_def)

lemma empty_log_ok: "calls c = [] \<Longrightarrow> log_ok c"
  by (simp add: log_ok_def)

lemma pending_ok_zero: "pending_ok b \<Longrightarrow> blocks b 0 = None"
  by (cases "blocks b 0") (auto simp: pending_ok_def)

lemma pending_ok_Height: "pending_ok b \<Longrightarrow> blocks b k = Some x \<Longrightarrow> Height x = k \<and> k \<noteq> 0"
  by (simp add: pending_ok_def)

lemma pending_ok_sub:
  "pending_ok b \<Longrightarrow> (\<And>k x. blocks b' k = Some x \<Longrightarrow> blocks b k = Some x) \<Longrightarrow> pending_ok b'"
  unfolding pending_ok_def by blast

lemma pending_ok_insert:
  assumes "pending_ok b" and "t < Height x"
  shows "pending_ok (b\<lparr>blocks := (blocks b)(Height x \<mapsto> x)\<rparr>)"
proof -
  have "Height x \<noteq> 0"
    using assms(2) by auto
  then show ?thesis
    using assms(1) by (auto simp: pending_ok_def)
qed

lemma drain_log_ok:
  assumes p: "pending_ok b0" and l: "log_ok (bc b0)" and t: "tipHeight (bc b0) < h0"
  shows "log_ok (bc (snd (drain ok lim h0 b0)))"
proof (rule drain_rule
    [where I = "\<lambda>h b. pending_ok b \<and> log_ok (bc b) \<and> (tipHeight (bc b) < h \<or> h = 0)"
       and R = "\<lambda>h b. log_ok (bc b)"])
  show "pending_ok b0 \<and> log_ok (bc b0) \<and> (tipHeight (bc b0) < h0 \<or> h0 = 0)"
    using p l t by simp
next
  fix h b x
  assume inv: "pending_ok b \<and> log_ok (bc b) \<and> (tipHeight (bc b) < h \<or> h = 0)"
    and x: "blocks b h = Some x"
  have hx: "Height x = h" "h \<noteq> 0"
    using inv x pending_ok_Height by blast+
  then have lt: "tipHeight (bc b) < h"
    using inv by blast
  have old: "list_all (\<lambda>e. snd e \<longrightarrow> Height (fst e) \<le> tipHeight (bc b)) (calls (bc b))"
    using inv by (simp add: log_ok_def)
  have fresh: "list_all (\<lambda>e'. \<not> (snd e' \<and> Height (fst e') = h)) (calls (bc b))"
    using old lt by (auto simp: list_all_iff)
  have below: "list_all (\<lambda>e. snd e \<longrightarrow> Height (fst e) \<le> h) (calls (bc b))"
    using old lt by (auto simp: list_all_iff)
  have 1: "pending_ok (b\<lparr>blocks := (blocks b)(h := None),
                bc := (bc b)\<lparr>tipHeight := Height x, calls := (x, True) # calls (bc b)\<rparr>,
                commitHeight := h\<rparr>)"
    using inv by (auto simp: pending_ok_def split: if_splits)
  have 2: "log_ok ((bc b)\<lparr>tipHeight := Height x, calls := (x, True) # calls (bc b)\<rparr>)"
    using inv fresh below hx by (simp add: log_ok_def)
  have 3: "h < h + 1 \<or> h + 1 = 0"
    using lt by (rule word_step_up)
  show "pending_ok (b\<lparr>blocks := (blocks b)(h := None),
                bc := (bc b)\<lparr>tipHeight := Height x, calls := (x, True) # calls (bc b)\<rparr>,
                commitHeight := h\<rparr>) \<and>
        log_ok (bc (b\<lparr>blocks := (blocks b)(h := None),
                bc := (bc b)\<lparr>tipHeight := Height x, calls := (x, True) # calls (bc b)\<rparr>,
                commitHeight := h\<rparr>)) \<and>
        (tipHeight (bc (b\<lparr>blocks := (blocks b)(h := None),
                bc := (bc b)\<lparr>tipHeight := Height x, calls := (x, True) # calls (bc b)\<rparr>,
                commitHeight := h\<rparr>)) < h + 1 \<or> h + 1 = 0)"
    using 1 2 3 hx by simp
  show "log_ok (bc (b\<lparr>blocks := (blocks b)(h := None),
                bc := (bc b)\<lparr>calls := (x, False) # calls (bc b)\<rparr>\<rparr>))"
    using inv fresh hx by (simp add: log_ok_def)
next
  fix h b
  assume "pending_ok b \<and> log_ok (bc b) \<and> (tipHeight (bc b) < h \<or> h = 0)"
  then show "log_ok (bc b)"
    by simp
qed

subsection \<open>One call of \<open>Flush\<close>\<close>

lemma cleanup_fields [simp]:
  "bc (cleanup t b) = bc b" "size_b (cleanup t b) = size_b b"
  "commitHeight (cleanup t b) = commitHeight b"
  by (simp_all add: cleanup_def)

lemma cleanup_sub: "blocks (cleanup t b) k = Some x \<Longrightarrow> blocks b k = Some x"
  by (simp add: cleanup_def split: if_splits)

lemma cleanup_above: "t < k \<Longrightarrow> blocks (cleanup t b) k = blocks b k"
  by (auto simp: cleanup_def)

lemma Flush_invalid:
  "snd (fst (Flush ok blk b)) \<noteq> bCheckinValid \<Longrightarrow> snd (Flush ok blk b) = b"
  by (auto simp: Flush_def Let_def split: option.splits prod.splits if_splits)

lemma Flush_Some_valid:
  assumes "tipHeight (bc b) < Height x" and "blocks b (Height x) = None"
    and "Height x \<le> tipHeight (bc b) + size_b b"
  shows "Flush ok (Some x) b =
           ((Height x < fst (drain ok (tipHeight (bc b) + size_b b) (tipHeight (bc b) + 1)
                               (b\<lparr>blocks := (blocks b)(Height x \<mapsto> x)\<rparr>)),
             bCheckinValid),
            cleanup (tipHeight (bc b))
              (snd (drain ok (tipHeight (bc b) + size_b b) (tipHeight (bc b) + 1)
                      (b\<lparr>blocks := (blocks b)(Height x \<mapsto> x)\<rparr>))))"
  using assms by (simp add: Flush_def Let_def split_def not_le [symmetric])

lemma Flush_valid_cond:
  assumes "snd (fst (Flush ok blk b)) = bCheckinValid"
  shows "\<exists>x. blk = Some x \<and> tipHeight (bc b) < Height x \<and> blocks b (Height x) = None \<and>
             Height x \<le> tipHeight (bc b) + size_b b"
  using assms
  by (cases blk) (auto simp: Flush_def Let_def split_def not_le not_less split: if_splits)

lemma drain_post_range:
  assumes post: "drain_post b0 h0 lim h b" and z: "blocks b0 0 = None"
  shows "h0 \<le> h \<or> h = 0"
proof (rule ccontr)
  assume "\<not> (h0 \<le> h \<or> h = 0)"
  then have "h < h0" "h \<noteq> 0"
    by auto
  then have "drained h0 h 0"
    unfolding drained_def by (rule word_wrap_to_zero)
  then have "blocks b0 0 \<noteq> None"
    using post by (simp add: drain_post_def)
  with z show False
    by simp
qed

lemma drain_post_tip:
  assumes post: "drain_post b0 (t + 1) lim h b" and z: "blocks b0 0 = None"
    and t: "tipHeight (bc b0) = t" and lt: "t < t + 1"
  shows "t \<le> tipHeight (bc b) \<and> (h \<noteq> t + 1 \<longrightarrow> tipHeight (bc b) = h - 1) \<and>
         (h = t + 1 \<longrightarrow> tipHeight (bc b) = t)"
proof (cases "h = t + 1")
  case True
  then show ?thesis
    using post t by (simp add: drain_post_def)
next
  case False
  have tip: "tipHeight (bc b) = h - 1"
    using post False by (simp add: drain_post_def)
  from drain_post_range [OF post z] have "t \<le> h - 1"
  proof
    assume "t + 1 \<le> h"
    then show ?thesis
      using word_pred_ge [of "t + 1" h t] False lt by simp
  next
    assume "h = 0"
    then show ?thesis
      by simp
  qed
  then show ?thesis
    using tip False by simp
qed

lemma drain_post_sub:
  "drain_post b0 h0 lim h b \<Longrightarrow> blocks b k = Some x \<Longrightarrow> blocks b0 k = Some x"
  by (simp add: drain_post_def split: if_splits)

lemma Flush_lower:
  "Height blk \<le> tipHeight (bc b) \<Longrightarrow> Flush ok (Some blk) b = ((False, bCheckinLower), b)"
  by (simp add: Flush_def)

lemma Flush_existing:
  "tipHeight (bc b) < Height blk \<Longrightarrow> blocks b (Height blk) \<noteq> None \<Longrightarrow>
   Flush ok (Some blk) b = ((False, bCheckinExisting), b)"
  by (auto simp: Flush_def Let_def not_le [symmetric])

lemma Flush_valid_post:
  assumes p: "pending_ok b" and v: "snd (fst (Flush ok blk b)) = bCheckinValid"
  obtains x h bd where
    "blk = Some x" and "tipHeight (bc b) < Height x" and "blocks b (Height x) = None"
    and "Height x \<le> tipHeight (bc b) + size_b b"
    and "pending_ok (b\<lparr>blocks := (blocks b)(Height x \<mapsto> x)\<rparr>)"
    and "drain_post (b\<lparr>blocks := (blocks b)(Height x \<mapsto> x)\<rparr>) (tipHeight (bc b) + 1)
           (tipHeight (bc b) + size_b b) h bd"
    and "Flush ok blk b = ((Height x < h, bCheckinValid), cleanup (tipHeight (bc b)) bd)"
    and "log_ok (bc b) \<longrightarrow> log_ok (bc bd)"
proof -
  from Flush_valid_cond [OF v] obtain x where
    x: "blk = Some x" and lt: "tipHeight (bc b) < Height x" and
    fr: "blocks b (Height x) = None" and le: "Height x \<le> tipHeight (bc b) + size_b b"
    by blast
  let ?ins = "b\<lparr>blocks := (blocks b)(Height x \<mapsto> x)\<rparr>"
  let ?D = "drain ok (tipHeight (bc b) + size_b b) (tipHeight (bc b) + 1) ?ins"
  have pi: "pending_ok ?ins"
    using p lt by (rule pending_ok_insert)
  have post: "drain_post ?ins (tipHeight (bc b) + 1) (tipHeight (bc b) + size_b b) (fst ?D) (snd ?D)"
    using pi by (rule drain_spec)
  have fl: "Flush ok blk b = ((Height x < fst ?D, bCheckinValid), cleanup (tipHeight (bc b)) (snd ?D))"
    unfolding x using lt fr le by (rule Flush_Some_valid)
  have "tipHeight (bc ?ins) < tipHeight (bc b) + 1"
    using word_succ_facts [OF lt] by simp
  then have lg: "log_ok (bc b) \<longrightarrow> log_ok (bc (snd ?D))"
    using drain_log_ok [OF pi, of "tipHeight (bc b) + 1" ok "tipHeight (bc b) + size_b b"] by simp
  show thesis
    using that [OF x lt fr le pi post fl lg] .
qed

lemma Flush_preserves:
  assumes p: "pending_ok b"
  shows "pending_ok (snd (Flush ok blk b)) \<and>
         size_b (snd (Flush ok blk b)) = size_b b \<and>
         tipHeight (bc b) \<le> tipHeight (bc (snd (Flush ok blk b))) \<and>
         (commitHeight b \<le> tipHeight (bc b) \<longrightarrow>
            commitHeight b \<le> commitHeight (snd (Flush ok blk b)) \<and>
            commitHeight (snd (Flush ok blk b)) \<le> tipHeight (bc (snd (Flush ok blk b)))) \<and>
         (in_window b \<longrightarrow> in_window (snd (Flush ok blk b))) \<and>
         (log_ok (bc b) \<longrightarrow> log_ok (bc (snd (Flush ok blk b))))"
proof (cases "snd (fst (Flush ok blk b)) = bCheckinValid")
  case False
  then have "snd (Flush ok blk b) = b"
    by (rule Flush_invalid)
  then show ?thesis
    using p by simp
next
  case True
  from Flush_valid_post [OF p True] obtain x h bd where
    x: "blk = Some x" and lt: "tipHeight (bc b) < Height x" and
    fr: "blocks b (Height x) = None" and le: "Height x \<le> tipHeight (bc b) + size_b b" and
    pi: "pending_ok (b\<lparr>blocks := (blocks b)(Height x \<mapsto> x)\<rparr>)" and
    post: "drain_post (b\<lparr>blocks := (blocks b)(Height x \<mapsto> x)\<rparr>) (tipHeight (bc b) + 1)
           (tipHeight (bc b) + size_b b) h bd" and
    fl: "Flush ok blk b = ((Height x < h, bCheckinValid), cleanup (tipHeight (bc b)) bd)" and
    lg: "log_ok (bc b) \<longrightarrow> log_ok (bc bd)"
    by blast
  let ?ins = "b\<lparr>blocks := (blocks b)(Height x \<mapsto> x)\<rparr>"
  let ?t = "tipHeight (bc b)"
  have b': "snd (Flush ok blk b) = cleanup ?t bd"
    by (simp add: fl)
  have sub: "blocks ?ins k = Some y" if "blocks (cleanup ?t bd) k = Some y" for k y
    using that cleanup_sub drain_post_sub [OF post] by blast
  have 1: "pending_ok (cleanup ?t bd)"
    using pi sub by (rule pending_ok_sub)
  have 2: "size_b bd = size_b b"
    using post by (simp add: drain_post_def)
  have s: "?t < ?t + 1"
    using word_succ_facts [OF lt] by simp
  have tip: "?t \<le> tipHeight (bc bd) \<and> (h \<noteq> ?t + 1 \<longrightarrow> tipHeight (bc bd) = h - 1) \<and>
             (h = ?t + 1 \<longrightarrow> tipHeight (bc bd) = ?t)"
    using post pending_ok_zero [OF pi] _ s by (rule drain_post_tip) simp
  have ch: "commitHeight bd = (if h = ?t + 1 then commitHeight b else h - 1)"
    using post by (simp add: drain_post_def)
  have 4: "commitHeight b \<le> commitHeight bd \<and> commitHeight bd \<le> tipHeight (bc bd)"
    if "commitHeight b \<le> ?t"
    using that tip ch by (cases "h = ?t + 1") auto
  have 5: "in_window (cleanup ?t bd)" if w: "in_window b"
    unfolding in_window_def
  proof (intro allI impI)
    fix k y
    assume "blocks (cleanup ?t bd) k = Some y"
    then have "blocks ?ins k = Some y"
      by (rule sub)
    then have "unat k \<le> unat ?t + unat (size_b b)"
    proof (cases "k = Height x")
      case True
      have "unat (Height x) \<le> unat (?t + size_b b)"
        using le by (simp add: word_le_nat_alt)
      also have "\<dots> \<le> unat ?t + unat (size_b b)"
        by (rule unat_add_le_sum)
      finally show ?thesis
        using True by simp
    next
      case False
      with \<open>blocks ?ins k = Some y\<close> have "blocks b k = Some y"
        by simp
      then show ?thesis
        using w by (simp add: in_window_def)
    qed
    moreover have "unat ?t \<le> unat (tipHeight (bc bd))"
      using tip by (simp add: word_le_nat_alt)
    ultimately show "unat k \<le> unat (tipHeight (bc (cleanup ?t bd))) + unat (size_b (cleanup ?t bd))"
      using 2 by simp
  qed
  show ?thesis
    unfolding b' using 1 2 tip 4 5 lg by simp
qed

lemma flushes_append: "flushes (cs @ cs') b = flushes cs' (flushes cs b)"
  by (induction cs arbitrary: b) auto

lemma flushes_preserves:
  assumes "pending_ok b"
  shows "pending_ok (flushes cs b) \<and>
         (commitHeight b \<le> tipHeight (bc b) \<longrightarrow>
            commitHeight b \<le> commitHeight (flushes cs b) \<and>
            commitHeight (flushes cs b) \<le> tipHeight (bc (flushes cs b))) \<and>
         (in_window b \<longrightarrow> in_window (flushes cs b)) \<and>
         (log_ok (bc b) \<longrightarrow> log_ok (bc (flushes cs b)))"
  using assms
proof (induction cs arbitrary: b)
  case Nil
  then show ?case
    by simp
next
  case (Cons c cs)
  obtain ok blk where c: "c = (ok, blk)"
    by (cases c)
  let ?b = "snd (Flush ok blk b)"
  note step = Flush_preserves [OF Cons.prems, of ok blk]
  then have "pending_ok ?b"
    by simp
  note rest = Cons.IH [OF this]
  have 2: "commitHeight b \<le> commitHeight (flushes cs ?b) \<and>
           commitHeight (flushes cs ?b) \<le> tipHeight (bc (flushes cs ?b))"
    if "commitHeight b \<le> tipHeight (bc b)"
  proof -
    from step that have a: "commitHeight b \<le> commitHeight ?b" "commitHeight ?b \<le> tipHeight (bc ?b)"
      by simp_all
    with rest have "commitHeight ?b \<le> commitHeight (flushes cs ?b)"
      "commitHeight (flushes cs ?b) \<le> tipHeight (bc (flushes cs ?b))"
      by simp_all
    with a show ?thesis
      by simp
  qed
  show ?case
    unfolding c using step rest 2 by simp
qed

lemma Flush_valid_run:
  assumes p: "pending_ok b" and fl: "Flush ok (Some blk) b = ((r, bCheckinValid), b')"
  obtains h bd where
    "tipHeight (bc b) < Height blk" and "Height blk \<le> tipHeight (bc b) + size_b b"
    and "pending_ok (b\<lparr>blocks := (blocks b)(Height blk \<mapsto> blk)\<rparr>)"
    and "drain_post (b\<lparr>blocks := (blocks b)(Height blk \<mapsto> blk)\<rparr>) (tipHeight (bc b) + 1)
           (tipHeight (bc b) + size_b b) h bd"
    and "b' = cleanup (tipHeight (bc b)) bd" and "r = (Height blk < h)"
    and "tipHeight (bc b) + 1 \<le> h \<or> h = 0"
proof -
  have v: "snd (fst (Flush ok (Some blk) b)) = bCheckinValid"
    by (simp add: fl)
  from Flush_valid_post [OF p v] obtain x h bd where
    x: "Some blk = Some x" and lt: "tipHeight (bc b) < Height x" and
    le: "Height x \<le> tipHeight (bc b) + size_b b" and
    pi: "pending_ok (b\<lparr>blocks := (blocks b)(Height x \<mapsto> x)\<rparr>)" and
    post: "drain_post (b\<lparr>blocks := (blocks b)(Height x \<mapsto> x)\<rparr>) (tipHeight (bc b) + 1)
           (tipHeight (bc b) + size_b b) h bd" and
    eq: "Flush ok (Some blk) b = ((Height x < h, bCheckinValid), cleanup (tipHeight (bc b)) bd)"
    by blast
  have xb: "x = blk"
    using x by simp
  have range: "tipHeight (bc b) + 1 \<le> h \<or> h = 0"
    using post pending_ok_zero [OF pi] by (rule drain_post_range)
  from eq fl have "b' = cleanup (tipHeight (bc b)) bd" "r = (Height x < h)"
    by simp_all
  then show thesis
    using that lt le pi post range unfolding xb by blast
qed

subsection \<open>The intervals to synchronise\<close>

text \<open>
  When the target, after clamping, is below the largest \<open>uint64\<close>, the loop of
  \<open>GetBlocksIntervalsToSync\<close> ends and keeps \<open>scan_inv\<close>. With a window of at least
  1 and a tip height plus window below \<open>2 ^ 64 - 1\<close>, the function then returns
  ascending, disjoint intervals that cover exactly the heights without an entry between
  the tip and the clamped target.
\<close>

lemma ascending_snoc:
  "ascending bi \<Longrightarrow> \<forall>iv \<in> set bi. End iv < Start new \<Longrightarrow> Start new \<le> End new \<Longrightarrow>
   ascending (bi @ [new])"
  by (induction bi rule: ascending.induct) auto

lemma covered_snoc: "covered (bi @ [new]) = covered bi \<union> {k. Start new \<le> k \<and> k \<le> End new}"
  by (auto simp: covered_def)

lemma scan_inv_gap_opens:
  assumes inv: "scan_inv blks lo h start False bi" and none: "blks h = None" and s: "h < h + 1"
  shows "scan_inv blks lo (h + 1) h True bi"
proof -
  have lo: "lo \<le> h"
    using inv by (simp add: scan_inv_def)
  have cov: "k \<in> covered bi \<longleftrightarrow> lo \<le> k \<and> k < h \<and> blks k = None" for k
    using inv by (simp add: scan_inv_def)
  have 1: "k \<in> covered bi \<or> (h \<le> k \<and> k < h + 1) \<longleftrightarrow> lo \<le> k \<and> k < h + 1 \<and> blks k = None" for k
    using lo none by (auto simp: cov word_less_succ [OF s])
  have 2: "\<forall>k. h \<le> k \<and> k < h + 1 \<longrightarrow> blks k = None"
    using none by (auto simp: word_less_succ [OF s])
  show ?thesis
    unfolding scan_inv_def using inv lo s 1 2 by (simp add: scan_inv_def)
qed

lemma scan_inv_gap_goes_on:
  assumes inv: "scan_inv blks lo h start True bi" and none: "blks h = None" and s: "h < h + 1"
  shows "scan_inv blks lo (h + 1) start True bi"
proof -
  have lo: "lo \<le> h" and st: "lo \<le> start" "start < h"
    using inv by (simp_all add: scan_inv_def)
  have cov: "k \<in> covered bi \<or> (start \<le> k \<and> k < h) \<longleftrightarrow> lo \<le> k \<and> k < h \<and> blks k = None" for k
    using inv by (simp add: scan_inv_def)
  have 1: "k \<in> covered bi \<or> (start \<le> k \<and> k < h + 1) \<longleftrightarrow> lo \<le> k \<and> k < h + 1 \<and> blks k = None" for k
    using cov [of k] lo none st by (auto simp: word_less_succ [OF s])
  have 2: "\<forall>k. start \<le> k \<and> k < h + 1 \<longrightarrow> blks k = None"
    using inv none by (auto simp: word_less_succ [OF s] scan_inv_def)
  have 3: "start < h + 1" "lo \<le> h + 1"
    using st lo s by auto
  show ?thesis
    unfolding scan_inv_def using inv 1 2 3 by (simp add: scan_inv_def)
qed

lemma scan_inv_gap_closes:
  assumes inv: "scan_inv blks lo h start True bi" and some: "blks h \<noteq> None" and s: "h < h + 1"
  shows "scan_inv blks lo (h + 1) start False (bi @ [\<lparr>Start = start, End = h - 1\<rparr>])"
proof -
  have lo: "lo \<le> h" and st: "lo \<le> start" "start < h"
    using inv by (simp_all add: scan_inv_def)
  note q = word_le_pred_iff [OF st(2)]
  have p: "start \<le> h - 1" "h - 1 < h" "h - 1 < h + 1"
    using word_pred_less [OF st(2)] s by auto
  have asc: "ascending bi" and ends: "\<forall>iv \<in> set bi. lo \<le> Start iv \<and> End iv < start"
    using inv by (simp_all add: scan_inv_def)
  have cov: "k \<in> covered bi \<or> (start \<le> k \<and> k < h) \<longleftrightarrow> lo \<le> k \<and> k < h \<and> blks k = None" for k
    using inv by (simp add: scan_inv_def)
  have 1: "ascending (bi @ [\<lparr>Start = start, End = h - 1\<rparr>])"
    using asc ends st p by (intro ascending_snoc) simp_all
  have 2: "\<forall>iv \<in> set (bi @ [\<lparr>Start = start, End = h - 1\<rparr>]). lo \<le> Start iv \<and> End iv < h + 1"
    using ends st s p by auto
  have 3: "k \<in> covered (bi @ [\<lparr>Start = start, End = h - 1\<rparr>])
            \<longleftrightarrow> lo \<le> k \<and> k < h + 1 \<and> blks k = None" for k
    using cov [of k] some by (cases "k = h") (auto simp: covered_snoc word_less_succ [OF s] q)
  have 4: "lo \<le> h + 1"
    using lo s by auto
  show ?thesis
    unfolding scan_inv_def using 1 2 3 4 some by simp
qed

lemma scan_inv_no_gap:
  assumes inv: "scan_inv blks lo h start False bi" and some: "blks h \<noteq> None" and s: "h < h + 1"
  shows "scan_inv blks lo (h + 1) start False bi"
proof -
  have lo: "lo \<le> h"
    using inv by (simp add: scan_inv_def)
  have cov: "k \<in> covered bi \<longleftrightarrow> lo \<le> k \<and> k < h \<and> blks k = None" for k
    using inv by (simp add: scan_inv_def)
  have 1: "k \<in> covered bi \<longleftrightarrow> lo \<le> k \<and> k < h + 1 \<and> blks k = None" for k
    using some by (cases "k = h") (auto simp: cov word_less_succ [OF s])
  have 2: "\<forall>iv \<in> set bi. lo \<le> Start iv \<and> End iv < h + 1"
    using inv s by (auto simp: scan_inv_def)
  have 3: "lo \<le> h + 1"
    using lo s by auto
  show ?thesis
    unfolding scan_inv_def using inv 1 2 3 some by (simp add: scan_inv_def)
qed

lemma scan_total:
  assumes t: "target < target + 1"
  shows "h \<le> target + 1 \<Longrightarrow> scan_inv blks lo h start startSet bi \<Longrightarrow>
         \<exists>start' startSet' bi'. scan blks target h start startSet bi = Some (start', startSet', bi') \<and>
            scan_inv blks lo (target + 1) start' startSet' bi'"
proof (induction "unat (target + 1) - unat h" arbitrary: h start startSet bi rule: less_induct)
  case less
  show ?case
  proof (cases "h \<le> target")
    case False
    then have "h = target + 1"
      using less.prems(1) t by (rule word_past_end)
    moreover have "scan blks target h start startSet bi = Some (start, startSet, bi)"
      using False by (subst scan.simps) simp
    ultimately show ?thesis
      using less.prems(2) by simp
  next
    case True
    from word_below_max [OF t True] have s: "h < h + 1" and le: "h + 1 \<le> target + 1"
      by simp_all
    have m: "unat (target + 1) - unat (h + 1) < unat (target + 1) - unat h"
      using s le by (rule word_measure_step)
    note IH = less.hyps [OF m le]
    consider (opens) "blks h = None" "\<not> startSet" | (goes_on) "blks h = None" "startSet"
      | (closes) "blks h \<noteq> None" "startSet" | (no_gap) "blks h \<noteq> None" "\<not> startSet"
      by blast
    then show ?thesis
    proof cases
      case opens
      then have "scan blks target h start startSet bi = scan blks target (h + 1) h True bi"
        using True by (subst scan.simps) auto
      moreover have "scan_inv blks lo (h + 1) h True bi"
        using less.prems(2) opens s by (auto intro: scan_inv_gap_opens)
      ultimately show ?thesis
        using IH by simp
    next
      case goes_on
      then have "scan blks target h start startSet bi = scan blks target (h + 1) start True bi"
        using True by (subst scan.simps) auto
      moreover have "scan_inv blks lo (h + 1) start True bi"
        using less.prems(2) goes_on s by (auto intro: scan_inv_gap_goes_on)
      ultimately show ?thesis
        using IH by simp
    next
      case closes
      then have "scan blks target h start startSet bi =
                 scan blks target (h + 1) start False (bi @ [\<lparr>Start = start, End = h - 1\<rparr>])"
        using True by (subst scan.simps) auto
      moreover have "scan_inv blks lo (h + 1) start False (bi @ [\<lparr>Start = start, End = h - 1\<rparr>])"
        using less.prems(2) closes s by (auto intro: scan_inv_gap_closes)
      ultimately show ?thesis
        using IH by simp
    next
      case no_gap
      then have "scan blks target h start startSet bi = scan blks target (h + 1) start False bi"
        using True by (subst scan.simps) auto
      moreover have "scan_inv blks lo (h + 1) start False bi"
        using less.prems(2) no_gap s by (auto intro: scan_inv_no_gap)
      ultimately show ?thesis
        using IH by simp
    qed
  qed
qed

lemma scan_inv_start: "scan_inv blks lo lo 0 False []"
  by (auto simp: scan_inv_def covered_def)

lemma GetBlocksIntervalsToSync_nothing:
  "target0 \<le> tipHeight (bc b) \<Longrightarrow> GetBlocksIntervalsToSync b target0 = Some []"
  by (simp add: GetBlocksIntervalsToSync_def)

lemma intervals_of_scan:
  assumes lo: "t + 1 \<le> target" and tt: "target < target + 1" and s: "t < t + 1"
  shows "\<exists>ivs. last_block blks target (scan blks target (t + 1) 0 False []) = Some ivs \<and>
           ascending ivs \<and> covered ivs = {k. t < k \<and> k \<le> target \<and> blks k = None}"
proof -
  have le: "t + 1 \<le> target + 1"
    using lo tt by simp
  from scan_total [OF tt le scan_inv_start, of blks]
  obtain start startSet bi where
    sc: "scan blks target (t + 1) 0 False [] = Some (start, startSet, bi)" and
    inv: "scan_inv blks (t + 1) (target + 1) start startSet bi"
    by blast
  have ne: "target + 1 \<noteq> t + 1"
  proof
    assume "target + 1 = t + 1"
    then have "target = t"
      by (simp only: add_right_cancel)
    moreover have "\<not> t + 1 \<le> t"
      using s by (simp only: not_le)
    ultimately show False
      using lo by blast
  qed
  have cov: "k \<in> covered bi \<or> (startSet \<and> start \<le> k \<and> k \<le> target)
             \<longleftrightarrow> t < k \<and> k \<le> target \<and> blks k = None" for k
    using inv by (simp add: scan_inv_def word_less_succ [OF tt] word_succ_le_iff [OF s])
  have asc: "ascending bi"
    using inv by (simp add: scan_inv_def)
  show ?thesis
  proof (cases "blks target = None")
    case True
    then have ss: startSet
      using inv ne by (auto simp: scan_inv_def)
    then have st: "start \<le> target" and ends: "\<forall>iv \<in> set bi. End iv < start"
      using inv by (simp_all add: scan_inv_def word_less_succ [OF tt])
    let ?ivs = "bi @ [\<lparr>Start = start, End = target\<rparr>]"
    have res: "last_block blks target (scan blks target (t + 1) 0 False []) = Some ?ivs"
      using True ss by (simp add: sc last_block_def)
    have "ascending ?ivs"
      using asc ends st by (intro ascending_snoc) simp_all
    moreover have "covered ?ivs = {k. t < k \<and> k \<le> target \<and> blks k = None}"
      using cov ss by (auto simp: covered_snoc)
    ultimately show ?thesis
      using res by blast
  next
    case False
    have ns: "\<not> startSet"
    proof
      assume startSet
      then have "start \<le> target" "\<forall>k. start \<le> k \<and> k \<le> target \<longrightarrow> blks k = None"
        using inv by (simp_all add: scan_inv_def word_less_succ [OF tt])
      then have "blks target = None"
        by simp
      with False show False
        by simp
    qed
    have res: "last_block blks target (scan blks target (t + 1) 0 False []) = Some bi"
      using False by (simp add: sc last_block_def)
    moreover have "covered bi = {k. t < k \<and> k \<le> target \<and> blks k = None}"
      using cov ns by auto
    ultimately show ?thesis
      using asc by blast
  qed
qed

lemma GetBlocksIntervalsToSync_unfold:
  assumes "tipHeight (bc b) < target0"
  shows "GetBlocksIntervalsToSync b target0 =
           last_block (blocks b) (min target0 (tipHeight (bc b) + size_b b))
             (scan (blocks b) (min target0 (tipHeight (bc b) + size_b b)) (tipHeight (bc b) + 1)
                0 False [])"
proof -
  have m: "(if tipHeight (bc b) + size_b b < target0 then tipHeight (bc b) + size_b b else target0)
           = min target0 (tipHeight (bc b) + size_b b)"
    by (auto simp: min_def)
  have "\<not> target0 \<le> tipHeight (bc b)"
    using assms by (simp only: not_le)
  then show ?thesis
    unfolding GetBlocksIntervalsToSync_def Let_def m last_block_def by simp
qed

lemma GetBlocksIntervalsToSync_correct:
  assumes lt: "tipHeight (bc b) < target0" and w: "1 \<le> size_b b"
    and nov: "unat (tipHeight (bc b)) + unat (size_b b) < 2 ^ 64 - 1"
  shows "\<exists>ivs. GetBlocksIntervalsToSync b target0 = Some ivs \<and> ascending ivs \<and>
           covered ivs = {k. tipHeight (bc b) < k \<and>
                            k \<le> min target0 (tipHeight (bc b) + size_b b) \<and> blocks b k = None}"
proof -
  let ?t = "tipHeight (bc b)"
  have m: "(if ?t + size_b b < target0 then ?t + size_b b else target0)
           = min target0 (?t + size_b b)"
    by (auto simp: min_def)
  have nov': "unat ?t + unat (size_b b) < 2 ^ LENGTH(64) - 1"
    using nov by simp
  from word_min_bound [OF nov' w lt]
  have lo: "?t + 1 \<le> min target0 (?t + size_b b)"
    and nw: "unat (min target0 (?t + size_b b)) + 1 < 2 ^ LENGTH(64)" and s: "?t < ?t + 1"
    unfolding m by blast+
  have tt: "min target0 (?t + size_b b) < min target0 (?t + size_b b) + 1"
    using nw by (rule word_succ_no_wrap)
  show ?thesis
    unfolding GetBlocksIntervalsToSync_unfold [OF lt]
    using lo tt s by (rule intervals_of_scan)
qed

text \<open>
  With the largest \<open>uint64\<close> as the target the condition \<open>h <= targetHeight\<close> of the
  loop is always true: the loop never returns, and neither does the function when the
  tip height plus the window is that target.
\<close>

lemma scan_returns_below_max:
  assumes "scan blks targetHeight h start startSet bi = Some y"
  shows "targetHeight \<noteq> - 1"
proof (rule scan.raw_induct
    [where P = "\<lambda>blks targetHeight h start startSet bi y. targetHeight \<noteq> - 1", OF _ assms])
  fix loop :: "(u64 \<rightharpoonup> Block) \<Rightarrow> u64 \<Rightarrow> u64 \<Rightarrow> u64 \<Rightarrow> bool \<Rightarrow> syncBlocksInterval list
                 \<Rightarrow> (u64 \<times> bool \<times> syncBlocksInterval list) option"
    and blks t h start startSet bi y
  assume IH: "\<And>blks t h start startSet bi y.
                 loop blks t h start startSet bi = Some y \<Longrightarrow> t \<noteq> - 1"
    and body: "(if h \<le> t
                then if blks h = None
                     then if \<not> startSet then loop blks t (h + 1) h True bi
                          else loop blks t (h + 1) start startSet bi
                     else if startSet
                          then loop blks t (h + 1) start False (bi @ [\<lparr>Start = start, End = h - 1\<rparr>])
                          else loop blks t (h + 1) start startSet bi
                else Some (start, startSet, bi)) = Some y"
  show "t \<noteq> - 1"
  proof
    assume m: "t = - 1"
    then have "h \<le> t"
      by simp
    with body obtain h' start' startSet' bi' where
      "loop blks t h' start' startSet' bi' = Some y"
      by (auto split: if_splits)
    then have "t \<noteq> - 1"
      by (rule IH)
    with m show False
      by simp
  qed
qed

lemma scan_max_never_returns: "scan blks (- 1) h start startSet bi = None"
proof (cases "scan blks (- 1) h start startSet bi")
  case None
  then show ?thesis .
next
  case (Some y)
  then have "(- 1 :: u64) \<noteq> - 1"
    by (rule scan_returns_below_max)
  then show ?thesis
    by simp
qed

lemma GetBlocksIntervalsToSync_never_returns:
  assumes "tipHeight (bc b) + size_b b = - 1" and "tipHeight (bc b) \<noteq> - 1"
  shows "GetBlocksIntervalsToSync b (- 1) = None"
proof -
  have "tipHeight (bc b) < - 1"
    using assms(2) by (simp add: word_order.not_eq_extremum)
  then have "\<not> - 1 \<le> tipHeight (bc b)"
    by (simp only: not_le)
  then show ?thesis
    using assms(1) by (simp add: GetBlocksIntervalsToSync_def Let_def scan_max_never_returns)
qed

subsection \<open>Evaluations on the example buffer\<close>

lemma pending_ok_buf10: "pending_ok buf10"
  by (simp add: pending_ok_def buf10_def)

lemma flush_buf10_12:
  "Flush always_ok (Some (blockAt 12)) buf10 =
     ((False, bCheckinValid), buf10\<lparr>blocks := [12 \<mapsto> blockAt 12]\<rparr>)"
  by (simp add: Flush_def buf10_def blockAt_def cleanup_def commitBlock_def drain.simps always_ok_def)

lemma flush_buf10_12_11:
  "Flush always_ok (Some (blockAt 11)) (buf10\<lparr>blocks := [12 \<mapsto> blockAt 12]\<rparr>) =
     ((True, bCheckinValid),
      buf10\<lparr>bc := \<lparr>tipHeight = 12, calls = [(blockAt 12, True), (blockAt 11, True)]\<rparr>,
            commitHeight := 12\<rparr>)"
  by (simp add: Flush_def buf10_def blockAt_def cleanup_def commitBlock_def drain.simps always_ok_def)

lemma flush_buf10_fail_11:
  "Flush never_ok (Some (blockAt 11)) buf10 =
     ((False, bCheckinValid),
      buf10\<lparr>bc := \<lparr>tipHeight = 10, calls = [(blockAt 11, False)]\<rparr>\<rparr>)"
  by (simp add: Flush_def buf10_def blockAt_def cleanup_def commitBlock_def drain.simps never_ok_def)

lemma flush_buf10_fail_11_again:
  "Flush never_ok (Some (blockAt 11))
     (buf10\<lparr>bc := \<lparr>tipHeight = 10, calls = [(blockAt 11, False)]\<rparr>\<rparr>) =
     ((False, bCheckinValid),
      buf10\<lparr>bc := \<lparr>tipHeight = 10, calls = [(blockAt 11, False), (blockAt 11, False)]\<rparr>\<rparr>)"
  by (simp add: Flush_def buf10_def blockAt_def cleanup_def commitBlock_def drain.simps never_ok_def)

lemma flush_buf10_fail_11_then_ok:
  "Flush always_ok (Some (blockAt 11))
     (buf10\<lparr>bc := \<lparr>tipHeight = 10, calls = [(blockAt 11, False)]\<rparr>\<rparr>) =
     ((True, bCheckinValid),
      buf10\<lparr>bc := \<lparr>tipHeight = 11, calls = [(blockAt 11, True), (blockAt 11, False)]\<rparr>,
            commitHeight := 11\<rparr>)"
  by (simp add: Flush_def buf10_def blockAt_def cleanup_def commitBlock_def drain.simps always_ok_def)

lemma flush_buf10_11:
  "Flush always_ok (Some (blockAt 11)) buf10 =
     ((True, bCheckinValid),
      buf10\<lparr>bc := \<lparr>tipHeight = 11, calls = [(blockAt 11, True)]\<rparr>, commitHeight := 11\<rparr>)"
  by (simp add: Flush_def buf10_def blockAt_def cleanup_def commitBlock_def drain.simps always_ok_def)

lemma flush_buf10_11_again:
  "Flush always_ok (Some (blockAt 11))
     (buf10\<lparr>bc := \<lparr>tipHeight = 11, calls = [(blockAt 11, True)]\<rparr>, commitHeight := 11\<rparr>) =
     ((False, bCheckinLower),
      buf10\<lparr>bc := \<lparr>tipHeight = 11, calls = [(blockAt 11, True)]\<rparr>, commitHeight := 11\<rparr>)"
  by (simp add: Flush_def buf10_def blockAt_def)

lemma pending_ok_buf_run: "pending_ok buf_run"
  by (simp add: pending_ok_def buf_run_def buf10_def blockAt_def)

lemma flush_run_11:
  "Flush (fail_at 12) (Some (blockAt 11)) buf_run = ((True, bCheckinValid), buf_run')"
  by (simp add: Flush_def buf_run_def buf_run'_def buf10_def blockAt_def cleanup_def
      commitBlock_def drain.simps fail_at_def fun_eq_iff)

lemma intervals_buf_gaps:
  "GetBlocksIntervalsToSync buf_gaps 16 =
     Some [\<lparr>Start = 11, End = 11\<rparr>, \<lparr>Start = 13, End = 13\<rparr>, \<lparr>Start = 15, End = 15\<rparr>]"
  by (simp add: GetBlocksIntervalsToSync_def buf_gaps_def buf10_def scan.simps)

section \<open>The claims about the block buffer\<close>

lemma no_recommit_distinct:
  "no_recommit l \<Longrightarrow> distinct (map Height (map fst (filter snd l)))"
proof (induction l)
  case Nil
  then show ?case
    by simp
next
  case (Cons e l)
  then have "\<forall>e' \<in> set l. \<not> (snd e' \<and> Height (fst e') = Height (fst e))"
    by (simp add: list_all_iff)
  then have "Height (fst e) \<notin> set (map Height (map fst (filter snd l)))"
    by auto
  with Cons show ?case
    by simp
qed




text \<open>
  Claim C5. \<open>commitHeight\<close> never decreases: after any sequence of calls of \<open>Flush\<close>,
  with any arguments and any outcomes of the commits, any further calls leave
  \<open>CommitHeight()\<close> at least where it was. The buffer starts in a state in which
  \<open>commitHeight\<close> is not above the tip of the chain and the pending blocks are stored
  under their heights, as in every buffer that started out empty; both are kept by every
  call (\<open>flushes_preserves\<close>).
\<close>

theorem commitHeight_monotone:
  assumes "pending_ok b" and "commitHeight b \<le> tipHeight (bc b)"
  shows "CommitHeight (flushes cs b) \<le> CommitHeight (flushes (cs @ cs') b)"
proof -
  let ?b = "flushes cs b"
  from flushes_preserves [OF assms(1), of cs] assms(2)
  have "pending_ok ?b" and "commitHeight ?b \<le> tipHeight (bc ?b)"
    by simp_all
  from flushes_preserves [OF this(1), of cs'] this(2)
  have "commitHeight ?b \<le> commitHeight (flushes cs' ?b)"
    by simp
  then show ?thesis
    by (simp add: CommitHeight_def flushes_append)
qed

theorem commitHeight_monotone_witness:
  "pending_ok buf10 \<and> commitHeight buf10 \<le> tipHeight (bc buf10) \<and>
   CommitHeight (flushes [(always_ok, Some (blockAt 12))] buf10) = 10 \<and>
   CommitHeight (flushes ([(always_ok, Some (blockAt 12))] @ [(always_ok, Some (blockAt 11))]) buf10) = 12 \<and>
   CommitHeight (flushes [(always_ok, Some (blockAt 12))] buf10)
     \<le> CommitHeight (flushes ([(always_ok, Some (blockAt 12))] @ [(always_ok, Some (blockAt 11))]) buf10)"
proof -
  have c: "commitHeight buf10 \<le> tipHeight (bc buf10)"
    by (simp add: buf10_def)
  have 1: "CommitHeight (flushes [(always_ok, Some (blockAt 12))] buf10) = 10"
    by (simp add: flush_buf10_12 CommitHeight_def) (simp add: buf10_def)
  have 2: "CommitHeight (flushes ([(always_ok, Some (blockAt 12))] @ [(always_ok, Some (blockAt 11))]) buf10) = 12"
    by (simp add: flush_buf10_12 flush_buf10_12_11 CommitHeight_def)
  from commitHeight_monotone [OF pending_ok_buf10 c,
      of "[(always_ok, Some (blockAt 12))]" "[(always_ok, Some (blockAt 11))]"]
    pending_ok_buf10 c 1 2
  show ?thesis
    by blast
qed

text \<open>
  Claim C2, as stated: every height would be passed to the commit operation at most once.
  A block whose commit failed is gone from the map, so a second \<open>Flush\<close> of a block of
  that height is \<open>Valid\<close> again and the height is passed to the commit operation again.
\<close>

theorem commit_called_twice:
  "map Height (map fst (calls (bc
     (flushes [(never_ok, Some (blockAt 11)), (never_ok, Some (blockAt 11))] buf10)))) = [11, 11]"
  by (simp add: flush_buf10_fail_11 flush_buf10_fail_11_again) (simp add: blockAt_def)

text \<open>
  Claim C2, amended: for every sequence of calls of \<open>Flush\<close>, a height is never passed
  to the commit operation again once a commit at that height has succeeded; so each
  height is committed successfully at most once. A height whose commit failed can be
  passed again by a later call.
\<close>

theorem no_double_commit:
  assumes "pending_ok b" and "log_ok (bc b)"
  shows "no_recommit (calls (bc (flushes cs b))) \<and>
         distinct (map Height (committed (bc (flushes cs b))))"
proof -
  from flushes_preserves [OF assms(1), of cs] assms(2)
  have "log_ok (bc (flushes cs b))"
    by simp
  then have "no_recommit (calls (bc (flushes cs b)))"
    by (simp add: log_ok_def)
  moreover from this have "distinct (map Height (committed (bc (flushes cs b))))"
    unfolding committed_def by (rule no_recommit_distinct)
  ultimately show ?thesis
    by blast
qed

theorem no_double_commit_witness:
  "pending_ok buf10 \<and> log_ok (bc buf10) \<and>
   no_recommit (calls (bc (flushes [(never_ok, Some (blockAt 11)), (always_ok, Some (blockAt 11))] buf10))) \<and>
   distinct (map Height (committed (bc
     (flushes [(never_ok, Some (blockAt 11)), (always_ok, Some (blockAt 11))] buf10)))) \<and>
   map Height (committed (bc
     (flushes [(never_ok, Some (blockAt 11)), (always_ok, Some (blockAt 11))] buf10))) = [11]"
proof -
  have l: "log_ok (bc buf10)"
    by (simp add: log_ok_def buf10_def)
  have e: "map Height (committed (bc
     (flushes [(never_ok, Some (blockAt 11)), (always_ok, Some (blockAt 11))] buf10))) = [11]"
    by (simp add: flush_buf10_fail_11 flush_buf10_fail_11_then_ok committed_def)
       (simp add: blockAt_def)
  from no_double_commit [OF pending_ok_buf10 l,
      of "[(never_ok, Some (blockAt 11)), (always_ok, Some (blockAt 11))]"]
    pending_ok_buf10 l e
  show ?thesis
    by blast
qed

text \<open>
  Claim C1, as stated: after a failed commit at a height, the block of that height would
  still be pending, and no block accepted as \<open>Valid\<close> would be lost without being
  committed. The loop deletes the entry before it tries the commit and does not put it
  back: a block accepted as \<open>Valid\<close> whose commit fails is afterwards neither pending
  nor committed.
\<close>

theorem failed_block_is_dropped:
  "snd (fst (Flush never_ok (Some (blockAt 11)) buf10)) = bCheckinValid \<and>
   blocks (snd (Flush never_ok (Some (blockAt 11)) buf10)) 11 = None \<and>
   committed (bc (snd (Flush never_ok (Some (blockAt 11)) buf10))) = []"
  by (simp add: flush_buf10_fail_11 committed_def) (simp add: buf10_def)

text \<open>
  Claim C1, amended: when, during the loop of a \<open>Flush\<close> that accepted its block as
  \<open>Valid\<close>, the commit of a block \<open>x\<close> fails, its height \<open>h\<close> lies in the window
  above the tip; the loop halts there: the failed call is the newest call of the commit
  operation, and the calls of this \<open>Flush\<close> before it are the successful commits of the
  heights from the tip + 1 to \<open>h - 1\<close>, all of which stay committed (the tip of the
  chain is \<open>h - 1\<close>); \<open>commitHeight\<close> is \<open>h - 1\<close>, the last height committed, or
  unchanged when the first commit of the loop failed; the blocks pending at heights above
  \<open>h\<close> are still pending; the block at \<open>h\<close> itself is no longer pending, so a later
  \<open>Flush\<close> starts again at \<open>h\<close> and commits it only if it is given a block of that
  height again. The result \<open>r\<close> of the call tells whether the loop got past the block
  that was flushed.
\<close>

theorem Flush_commit_failure:
  assumes p: "pending_ok b"
    and fl: "Flush ok (Some blk) b = ((r, bCheckinValid), b')"
    and new: "calls (bc b') = new @ calls (bc b)"
    and failed: "(x, False) \<in> set new"
  shows "tipHeight (bc b) < Height x \<and> Height x \<le> tipHeight (bc b) + size_b b \<and>
         ((blocks b)(Height blk \<mapsto> blk)) (Height x) = Some x \<and>
         new = (x, False) # run_log (b\<lparr>blocks := (blocks b)(Height blk \<mapsto> blk)\<rparr>)
                              (tipHeight (bc b) + 1) (Height x) \<and>
         (\<forall>k. tipHeight (bc b) < k \<and> k < Height x \<longrightarrow>
            (\<exists>y. ((blocks b)(Height blk \<mapsto> blk)) k = Some y \<and> (y, True) \<in> set new)) \<and>
         tipHeight (bc b') = Height x - 1 \<and>
         commitHeight b' = (if Height x = tipHeight (bc b) + 1 then commitHeight b else Height x - 1) \<and>
         blocks b' (Height x) = None \<and>
         (\<forall>k. Height x < k \<longrightarrow> blocks b' k = ((blocks b)(Height blk \<mapsto> blk)) k) \<and>
         r = (Height blk < Height x)"
proof -
  let ?t = "tipHeight (bc b)"
  let ?ins = "b\<lparr>blocks := (blocks b)(Height blk \<mapsto> blk)\<rparr>"
  from Flush_valid_run [OF p fl] obtain h bd where
    lt: "?t < Height blk" and
    pi: "pending_ok ?ins" and
    post: "drain_post ?ins (?t + 1) (?t + size_b b) h bd" and
    b': "b' = cleanup ?t bd" and r: "r = (Height blk < h)" and
    range: "?t + 1 \<le> h \<or> h = 0"
    by blast
  have s: "?t < ?t + 1" "?t + 1 \<noteq> 0"
    using word_succ_facts [OF lt] by simp_all
  have log: "calls (bc bd) =
       (if drain_failed ?ins (?t + size_b b) h then [(the (blocks ?ins h), False)] else [])
       @ run_log ?ins (?t + 1) h @ calls (bc b)"
    using post by (simp add: drain_post_def)
  then have new_eq: "new =
       (if drain_failed ?ins (?t + size_b b) h then [(the (blocks ?ins h), False)] else [])
       @ run_log ?ins (?t + 1) h"
    using new b' by simp
  have "(x, False) \<notin> set (run_log ?ins (?t + 1) h)"
    using run_log_success by fastforce
  with failed new_eq have f: "drain_failed ?ins (?t + size_b b) h"
    and x: "x = the (blocks ?ins h)"
    by (auto split: if_splits)
  from f obtain y where hl: "h \<le> ?t + size_b b" and y: "blocks ?ins h = Some y"
    by (auto simp: drain_failed_def)
  with x have hx: "blocks ?ins h = Some x"
    by simp
  then have Hx: "Height x = h" "h \<noteq> 0"
    using pending_ok_Height [OF pi] by blast+
  then have ge: "?t + 1 \<le> h"
    using range by simp
  then have th: "?t < h"
    using s by auto
  have 1: "new = (x, False) # run_log ?ins (?t + 1) h"
    using new_eq f x by simp
  have dr: "drained (?t + 1) h k \<longleftrightarrow> ?t + 1 \<le> k \<and> k < h" for k
    unfolding drained_def using ge by (rule word_diff_range)
  have 2: "\<exists>y. blocks ?ins k = Some y \<and> (y, True) \<in> set new" if "?t < k" "k < h" for k
  proof -
    have d: "drained (?t + 1) h k"
      using that word_succ_facts [OF that(1)] by (simp add: dr)
    then have "blocks ?ins k \<noteq> None"
      using post by (simp add: drain_post_def)
    then obtain y where "blocks ?ins k = Some y"
      by auto
    moreover from this have "(y, True) \<in> set new"
      using run_log_mem [OF d, of ?ins] by (simp add: 1)
    ultimately show ?thesis
      by blast
  qed
  have 3: "tipHeight (bc bd) = h - 1"
    using post by (auto simp: drain_post_def)
  have 4: "commitHeight bd = (if h = ?t + 1 then commitHeight b else h - 1)"
    using post by (simp add: drain_post_def)
  have bl: "blocks bd = (\<lambda>k. if drained (?t + 1) h k \<or> k = h then None else blocks ?ins k)"
    using post f by (simp add: drain_post_def)
  have 5: "blocks b' h = None"
  proof (cases "blocks b' h")
    case None
    then show ?thesis .
  next
    case (Some z)
    then have "blocks bd h = Some z"
      unfolding b' by (rule cleanup_sub)
    then show ?thesis
      by (simp add: bl)
  qed
  have 6: "blocks b' k = blocks ?ins k" if "h < k" for k
  proof -
    have "?t < k"
      using th that by simp
    then have "blocks b' k = blocks bd k"
      unfolding b' by (rule cleanup_above)
    also have "\<dots> = blocks ?ins k"
      using that by (auto simp: bl dr)
    finally show ?thesis .
  qed
  show ?thesis
    using th hl hx 1 2 3 4 5 6 r b' unfolding Hx(1) by simp
qed

theorem Flush_commit_failure_witness:
  "pending_ok buf_run \<and>
   Flush (fail_at 12) (Some (blockAt 11)) buf_run = ((True, bCheckinValid), buf_run') \<and>
   calls (bc buf_run') = [(blockAt 12, False), (blockAt 11, True)] @ calls (bc buf_run) \<and>
   (blockAt 12, False) \<in> set [(blockAt 12, False), (blockAt 11, True)] \<and>
   [(blockAt 12, False), (blockAt 11, True)]
     = (blockAt 12, False) # run_log (buf_run\<lparr>blocks := (blocks buf_run)(11 \<mapsto> blockAt 11)\<rparr>) 11 12 \<and>
   tipHeight (bc buf_run') = 11 \<and> commitHeight buf_run' = 11 \<and>
   blocks buf_run' 12 = None \<and> blocks buf_run' 13 = Some (blockAt 13)"
proof -
  have n: "calls (bc buf_run') = [(blockAt 12, False), (blockAt 11, True)] @ calls (bc buf_run)"
    by (simp add: buf_run'_def buf_run_def buf10_def)
  have f: "(blockAt 12, False) \<in> set [(blockAt 12, False), (blockAt 11, True)]"
    by simp
  have h: "Height (blockAt 12) = 12" "Height (blockAt 11) = 11"
    by (simp_all add: blockAt_def)
  have t: "tipHeight (bc buf_run) = 10"
    by (simp add: buf_run_def buf10_def)
  have "(13 :: u64) > 12"
    by simp
  with Flush_commit_failure [OF pending_ok_buf_run flush_run_11 n f]
  have "[(blockAt 12, False), (blockAt 11, True)]
          = (blockAt 12, False) # run_log (buf_run\<lparr>blocks := (blocks buf_run)(11 \<mapsto> blockAt 11)\<rparr>) 11 12"
    and "tipHeight (bc buf_run') = 11" and "commitHeight buf_run' = 11"
    and "blocks buf_run' 12 = None"
    and "blocks buf_run' 13 = ((blocks buf_run)(11 \<mapsto> blockAt 11)) 13"
    unfolding h t by simp_all
  moreover have "((blocks buf_run)(11 \<mapsto> blockAt 11)) 13 = Some (blockAt 13)"
    by (simp add: buf_run_def)
  ultimately show ?thesis
    using pending_ok_buf_run flush_run_11 n f by simp
qed

text \<open>
  Claim C6, as stated: flushing the same block twice would give \<open>Valid\<close> and then
  \<open>Existing\<close>. When the first call commits the block, the tip is at its height and the
  second call gives \<open>Lower\<close>, the rule that is tried first.
\<close>

theorem second_flush_is_Lower:
  "snd (fst (Flush always_ok (Some (blockAt 11)) buf10)) = bCheckinValid \<and>
   snd (fst (Flush always_ok (Some (blockAt 11))
               (snd (Flush always_ok (Some (blockAt 11)) buf10)))) = bCheckinLower"
  by (simp add: flush_buf10_11 flush_buf10_11_again)

text \<open>
  Claim C6, amended: when the first \<open>Flush\<close> of a block gives \<open>Valid\<close>, a second
  \<open>Flush\<close> of the same block gives \<open>Existing\<close> if the block is still pending after
  the first call and \<open>Lower\<close> if the first call committed it, and in both cases leaves
  the buffer as the first call left it. The one other case is that the commit of the
  block failed in the first call: then the block is neither pending nor committed and the
  second call is not a duplicate.
\<close>

theorem Flush_twice:
  assumes p: "pending_ok b"
    and fl: "Flush ok (Some blk) b = ((r, bCheckinValid), b1)"
  shows "(blocks b1 (Height blk) = Some blk \<and> tipHeight (bc b1) < Height blk \<and>
          Flush ok' (Some blk) b1 = ((False, bCheckinExisting), b1)) \<or>
         (blocks b1 (Height blk) = None \<and> Height blk \<le> tipHeight (bc b1) \<and>
          Flush ok' (Some blk) b1 = ((False, bCheckinLower), b1)) \<or>
         (blocks b1 (Height blk) = None \<and> tipHeight (bc b1) < Height blk \<and>
          (\<exists>cs. calls (bc b1) = (blk, False) # cs @ calls (bc b)))"
proof -
  let ?t = "tipHeight (bc b)"
  let ?K = "Height blk"
  let ?ins = "b\<lparr>blocks := (blocks b)(?K \<mapsto> blk)\<rparr>"
  let ?lim = "?t + size_b b"
  from Flush_valid_run [OF p fl] obtain h bd where
    lt: "?t < ?K" and le: "?K \<le> ?lim" and
    pi: "pending_ok ?ins" and
    post: "drain_post ?ins (?t + 1) ?lim h bd" and
    b1: "b1 = cleanup ?t bd" and
    range: "?t + 1 \<le> h \<or> h = 0"
    by blast
  have s: "?t < ?t + 1" "?t + 1 \<le> ?K" "?t + 1 \<noteq> 0"
    using word_succ_facts [OF lt] by simp_all
  have insK: "blocks ?ins ?K = Some blk"
    by simp
  have bl: "blocks bd = (\<lambda>k. if drained (?t + 1) h k \<or> (drain_failed ?ins ?lim h \<and> k = h)
                              then None else blocks ?ins k)"
    using post by (simp add: drain_post_def)
  have tip: "tipHeight (bc bd) = (if h = ?t + 1 then ?t else h - 1)"
    using post by (simp add: drain_post_def)
  have b1K: "blocks b1 ?K = blocks bd ?K"
    unfolding b1 using lt by (rule cleanup_above)
  have tip1: "tipHeight (bc b1) = tipHeight (bc bd)"
    by (simp add: b1)
  consider (committed) "drained (?t + 1) h ?K"
    | (dropped) "\<not> drained (?t + 1) h ?K" "drain_failed ?ins ?lim h" "h = ?K"
    | (pending) "\<not> drained (?t + 1) h ?K" "\<not> (drain_failed ?ins ?lim h \<and> ?K = h)"
    by blast
  then show ?thesis
  proof cases
    case committed
    then have ne: "h \<noteq> ?t + 1"
      using drained_start by blast
    have "?K \<le> h - 1"
      using range
    proof
      assume ge: "?t + 1 \<le> h"
      with committed have "?K < h"
        by (simp add: drained_def word_diff_range)
      then show ?thesis
        by (rule word_lt_pred)
    next
      assume "h = 0"
      then show ?thesis
        by simp
    qed
    then have low: "?K \<le> tipHeight (bc b1)"
      using tip ne tip1 by simp
    then have "Flush ok' (Some blk) b1 = ((False, bCheckinLower), b1)"
      by (rule Flush_lower)
    moreover have "blocks b1 ?K = None"
      using committed by (simp add: b1K bl)
    ultimately show ?thesis
      using low by blast
  next
    case dropped
    have none: "blocks b1 ?K = None"
      using dropped by (simp add: b1K bl)
    have "tipHeight (bc bd) < ?K"
    proof (cases "h = ?t + 1")
      case True
      then show ?thesis
        using tip lt by simp
    next
      case False
      then have "h - 1 < h"
        using word_pred_ge [of "?t + 1" h ?t] s dropped(3) by simp
      then show ?thesis
        using tip False dropped(3) by simp
    qed
    moreover have "calls (bc b1) = (blk, False) # run_log ?ins (?t + 1) h @ calls (bc b)"
      using post dropped by (simp add: drain_post_def b1)
    ultimately show ?thesis
      using none tip1 by auto
  next
    case pending
    have some: "blocks b1 ?K = Some blk"
      using pending by (auto simp: b1K bl)
    have hK: "h \<noteq> ?K"
      using pending(2) le by (auto simp: drain_failed_def)
    have "tipHeight (bc bd) < ?K"
    proof (cases "h = ?t + 1")
      case True
      then show ?thesis
        using tip lt by simp
    next
      case False
      have "h \<noteq> 0"
      proof
        assume "h = 0"
        then have "drained (?t + 1) h ?K"
          using s by (simp add: drained_def word_diff_wrapped [of "?t + 1" ?K, simplified])
        with pending(1) show False
          by simp
      qed
      with range have ge: "?t + 1 \<le> h"
        by simp
      with pending(1) s have "\<not> ?K < h"
        by (simp add: drained_def word_diff_range)
      with hK have "h < ?K"
        by auto
      moreover have "h - 1 < h"
        using word_pred_ge [of "?t + 1" h ?t] ge False s by simp
      ultimately show ?thesis
        using tip False by simp
    qed
    then have above: "tipHeight (bc b1) < ?K"
      by (simp add: tip1)
    moreover from this some have "Flush ok' (Some blk) b1 = ((False, bCheckinExisting), b1)"
      by (intro Flush_existing) simp_all
    ultimately show ?thesis
      using some by blast
  qed
qed

theorem Flush_twice_witness:
  "pending_ok buf10 \<and>
   Flush always_ok (Some (blockAt 12)) buf10
     = ((False, bCheckinValid), buf10\<lparr>blocks := [12 \<mapsto> blockAt 12]\<rparr>) \<and>
   Flush always_ok (Some (blockAt 12)) (buf10\<lparr>blocks := [12 \<mapsto> blockAt 12]\<rparr>)
     = ((False, bCheckinExisting), buf10\<lparr>blocks := [12 \<mapsto> blockAt 12]\<rparr>)"
proof -
  have "tipHeight (bc (buf10\<lparr>blocks := [12 \<mapsto> blockAt 12]\<rparr>)) < Height (blockAt 12)"
    "blocks (buf10\<lparr>blocks := [12 \<mapsto> blockAt 12]\<rparr>) (Height (blockAt 12)) \<noteq> None"
    by (simp_all add: buf10_def blockAt_def)
  with Flush_twice [OF pending_ok_buf10 flush_buf10_12, of always_ok]
  have "Flush always_ok (Some (blockAt 12)) (buf10\<lparr>blocks := [12 \<mapsto> blockAt 12]\<rparr>)
     = ((False, bCheckinExisting), buf10\<lparr>blocks := [12 \<mapsto> blockAt 12]\<rparr>)"
    by auto
  with pending_ok_buf10 flush_buf10_12 show ?thesis
    by blast
qed

text \<open>
  Claim C4, as stated, at a window size of 0, tip height 10, an empty buffer and the
  target 11: the heights to report are those above 10 and not above \<open>min 11 (10 + 0)\<close>,
  of which there are none. The target is clamped to the tip, the loop does not run, and
  the treatment of the last height after the loop adds the interval \<open>[10, 10]\<close>: the
  committed tip is reported as missing.
\<close>

theorem intervals_zero_window:
  "tipHeight (bc (buf10\<lparr>size_b := 0\<rparr>)) = 10 \<and> blocks (buf10\<lparr>size_b := 0\<rparr>) = Map.empty \<and>
   GetBlocksIntervalsToSync (buf10\<lparr>size_b := 0\<rparr>) 11 = Some [\<lparr>Start = 10, End = 10\<rparr>]"
  by (simp add: GetBlocksIntervalsToSync_def buf10_def scan.simps)

text \<open>
  Claim C4, amended: for a buffer with a window size of at least 1 whose tip height plus
  window size stays below \<open>2 ^ 64 - 1\<close>, and for every target height, the function
  returns: the empty sequence when the tip height is at or above the target; otherwise
  closed intervals, disjoint and in ascending order, whose union is exactly the set of
  the heights above the tip and not above the smaller of the target and the tip height
  plus the window size that have no entry in the map.
\<close>

theorem GetBlocksIntervalsToSync_spec:
  assumes w: "1 \<le> size_b b"
    and nov: "unat (tipHeight (bc b)) + unat (size_b b) < 2 ^ 64 - 1"
  shows "(targetHeight \<le> tipHeight (bc b) \<longrightarrow> GetBlocksIntervalsToSync b targetHeight = Some []) \<and>
         (tipHeight (bc b) < targetHeight \<longrightarrow>
            (\<exists>ivs. GetBlocksIntervalsToSync b targetHeight = Some ivs \<and> ascending ivs \<and>
               covered ivs =
                 {h. tipHeight (bc b) < h \<and>
                     h \<le> min targetHeight (tipHeight (bc b) + size_b b) \<and>
                     blocks b h = None}))"
proof (intro conjI impI)
  assume "targetHeight \<le> tipHeight (bc b)"
  then show "GetBlocksIntervalsToSync b targetHeight = Some []"
    by (rule GetBlocksIntervalsToSync_nothing)
next
  assume "tipHeight (bc b) < targetHeight"
  then show "\<exists>ivs. GetBlocksIntervalsToSync b targetHeight = Some ivs \<and> ascending ivs \<and>
               covered ivs =
                 {h. tipHeight (bc b) < h \<and>
                     h \<le> min targetHeight (tipHeight (bc b) + size_b b) \<and>
                     blocks b h = None}"
    using w nov by (rule GetBlocksIntervalsToSync_correct)
qed

theorem GetBlocksIntervalsToSync_spec_witness:
  "1 \<le> size_b buf_gaps \<and>
   unat (tipHeight (bc buf_gaps)) + unat (size_b buf_gaps) < 2 ^ 64 - 1 \<and>
   tipHeight (bc buf_gaps) < 16 \<and>
   GetBlocksIntervalsToSync buf_gaps 16 =
     Some [\<lparr>Start = 11, End = 11\<rparr>, \<lparr>Start = 13, End = 13\<rparr>, \<lparr>Start = 15, End = 15\<rparr>] \<and>
   ascending [\<lparr>Start = 11, End = 11\<rparr>, \<lparr>Start = 13, End = 13\<rparr>, \<lparr>Start = 15, End = 15\<rparr>] \<and>
   covered [\<lparr>Start = 11, End = 11\<rparr>, \<lparr>Start = 13, End = 13\<rparr>, \<lparr>Start = 15, End = 15\<rparr>] =
     {h. tipHeight (bc buf_gaps) < h \<and>
         h \<le> min 16 (tipHeight (bc buf_gaps) + size_b buf_gaps) \<and> blocks buf_gaps h = None} \<and>
   GetBlocksIntervalsToSync buf_gaps 10 = Some []"
proof -
  have w: "1 \<le> size_b buf_gaps"
    by (simp add: buf_gaps_def buf10_def)
  have nov: "unat (tipHeight (bc buf_gaps)) + unat (size_b buf_gaps) < 2 ^ 64 - 1"
    by (simp add: buf_gaps_def buf10_def)
  have lt: "tipHeight (bc buf_gaps) < 16"
    by (simp add: buf_gaps_def buf10_def)
  have le: "10 \<le> tipHeight (bc buf_gaps)"
    by (simp add: buf_gaps_def buf10_def)
  note spec = GetBlocksIntervalsToSync_spec [OF w nov]
  from spec [of 16] lt obtain ivs where
    "GetBlocksIntervalsToSync buf_gaps 16 = Some ivs" and "ascending ivs" and
    "covered ivs =
       {h. tipHeight (bc buf_gaps) < h \<and>
           h \<le> min 16 (tipHeight (bc buf_gaps) + size_b buf_gaps) \<and> blocks buf_gaps h = None}"
    by blast
  moreover from this(1)
  have "ivs = [\<lparr>Start = 11, End = 11\<rparr>, \<lparr>Start = 13, End = 13\<rparr>, \<lparr>Start = 15, End = 15\<rparr>]"
    by (simp add: intervals_buf_gaps)
  moreover from spec [of 10] le have "GetBlocksIntervalsToSync buf_gaps 10 = Some []"
    by blast
  ultimately show ?thesis
    using w nov lt intervals_buf_gaps by simp
qed

end
